theory Spec2Isabelle
  imports Main "HOL-Library.AList"
begin

section \<open>Data model of \<^verbatim>\<open>app.py\<close>\<close>

text \<open>
  The dataclasses of the source become records.  A Python \<^verbatim>\<open>dict\<close> keeps its
  insertion order and the source iterates over it, so a dict is an association list:
  \<^const>\<open>map_of\<close> is \<^verbatim>\<open>d.get(k)\<close>, \<^const>\<open>AList.update\<close> is \<^verbatim>\<open>d[k] = v\<close> (a present
  key keeps its position, a new key goes to the end) and \<^const>\<open>AList.delete\<close> is
  \<^verbatim>\<open>d.pop(k, None)\<close>.  The keys of the stored dicts are strings: they come from
  \<^verbatim>\<open>gen_id()\<close>, from the path of a URL or from the keys of a JSON object.  Field names
  carry the name of their class as a prefix, since a record field named \<^verbatim>\<open>id\<close> would hide
  the identity function.
\<close>

type_synonym 'v dict = "(string \<times> 'v) list"

text \<open>
  The annotations of the dataclasses are not enforced.  A field that a handler copies from
  the body of a request holds whatever JSON value the client sent, \<^verbatim>\<open>save_state\<close> and
  \<^verbatim>\<open>save_docs\<close> write it out and \<^verbatim>\<open>load_state\<close> and \<^verbatim>\<open>load_docs\<close> read it back.  The
  fields that name another entity are such fields: the \<^verbatim>\<open>parent_id\<close> of a folder and of a
  document, the \<^verbatim>\<open>table_id\<close> and \<^verbatim>\<open>column_id\<close> of a foreign reference, the \<^verbatim>\<open>from_id\<close> and
  \<^verbatim>\<open>to_id\<close> of a link.  They are JSON values here, with \<open>JNull\<close> for \<^verbatim>\<open>None\<close>.  Of a number
  the handlers only ask whether it is zero, so that an integer stands for it.
\<close>

datatype json =
  JNull
| JBool bool
| JNum int
| JStr string
| JList "json list"
| JObject "(string \<times> json) list"

record Link =
  link_id :: string
  link_from_type :: string
  link_from_id :: json
  link_to_type :: string
  link_to_id :: json
  link_note :: string

record ForeignRef =
  fr_table_id :: json
  fr_column_id :: json
  fr_note :: string

record Column =
  col_id :: string
  col_name :: string
  col_datatype :: string
  col_is_primary :: bool
  col_is_nullable :: bool
  col_default :: "string option"
  col_note :: string
  col_foreign_ref :: "ForeignRef option"
  col_order :: int

record Table =
  tbl_id :: string
  tbl_name :: string
  tbl_note :: string
  tbl_columns :: "Column dict"

record Database =
  db_id :: string
  db_name :: string
  db_note :: string
  db_tables :: "Table dict"
  db_links :: "Link dict"
  db_diagram :: "string dict"

text \<open>
  The HTTP status of an aborted request.  \<open>KeyError\<close>, \<open>TypeError\<close> and \<open>AttributeError\<close>
  stand for an uncaught Python exception of that name (status 500).
\<close>

datatype error = Unauthorized | NotFound | InvalidInput | Forbidden
  | KeyError | TypeError | AttributeError

text \<open>The truth value of a JSON value, as \<^verbatim>\<open>if v\<close>, \<^verbatim>\<open>v and ...\<close> and \<^verbatim>\<open>v or ...\<close> take it.\<close>

definition json_truthy :: "json \<Rightarrow> bool" where
  "json_truthy v =
     (case v of
        JNull \<Rightarrow> False
      | JBool b \<Rightarrow> b
      | JNum n \<Rightarrow> n \<noteq> 0
      | JStr s \<Rightarrow> s \<noteq> []
      | JList xs \<Rightarrow> xs \<noteq> []
      | JObject kvs \<Rightarrow> kvs \<noteq> [])"

text \<open>
  A \<^verbatim>\<open>list\<close> and a \<^verbatim>\<open>dict\<close> have no hash: looking one up in a dict or in a set raises
  \<^verbatim>\<open>TypeError\<close>.  Any other value is hashed and compared with the keys, which are strings,
  so that only a string can be found.
\<close>

definition hashable :: "json \<Rightarrow> bool" where
  "hashable v = (case v of JList xs \<Rightarrow> False | JObject kvs \<Rightarrow> False | _ \<Rightarrow> True)"

text \<open>\<^verbatim>\<open>d.get(k)\<close> for a key \<open>k\<close> that is any JSON value.\<close>

definition dict_get :: "'v dict \<Rightarrow> json \<Rightarrow> error + 'v option" where
  "dict_get d k =
     (case k of
        JStr s \<Rightarrow> Inr (map_of d s)
      | JList xs \<Rightarrow> Inl TypeError
      | JObject kvs \<Rightarrow> Inl TypeError
      | _ \<Rightarrow> Inr None)"


text \<open>\<^verbatim>\<open>str.strip()\<close>, on the whitespace characters of ASCII.\<close>

definition is_space :: "char \<Rightarrow> bool" where
  "is_space c = (c \<in> set [CHR 0x20, CHR 0x09, CHR 0x0A, CHR 0x0B, CHR 0x0C, CHR 0x0D,
                            CHR 0x1C, CHR 0x1D, CHR 0x1E, CHR 0x1F])"

definition strip :: "string \<Rightarrow> string" where
  "strip s = rev (dropWhile is_space (rev (dropWhile is_space s)))"

text \<open>\<^verbatim>\<open>v.strip()\<close> for a JSON value: only a string has the method.\<close>

definition json_strip :: "json \<Rightarrow> error + string" where
  "json_strip v = (case v of JStr s \<Rightarrow> Inr (strip s) | _ \<Rightarrow> Inl AttributeError)"

text \<open>
  A field of the body of a request is absent (\<open>None\<close>, which \<^verbatim>\<open>data.get(k)\<close> turns into
  \<^verbatim>\<open>None\<close>) or carries a JSON value.  \<open>field_truthy\<close> is \<^verbatim>\<open>if data.get(k)\<close> and \<open>json_or\<close> is
  \<^verbatim>\<open>data.get(k) or b\<close>.
\<close>

definition field_truthy :: "json option \<Rightarrow> bool" where
  "field_truthy a = (case a of None \<Rightarrow> False | Some v \<Rightarrow> json_truthy v)"

definition json_or :: "json option \<Rightarrow> json \<Rightarrow> json" where
  "json_or a b = (case a of None \<Rightarrow> b | Some v \<Rightarrow> if json_truthy v then v else b)"

text \<open>
  \<^verbatim>\<open>get_pin()\<close> reads a cookie: it is absent or a string, and \<^verbatim>\<open>if not pin\<close> holds for
  the absent and for the empty one.
\<close>

definition no_pin :: "string option \<Rightarrow> bool" where
  "no_pin pin = (case pin of None \<Rightarrow> True | Some s \<Rightarrow> s = [])"

text \<open>
  A handler is given the state that \<^verbatim>\<open>load_state\<close> returned and yields the state it
  hands to \<^verbatim>\<open>save_state\<close>, or the error it aborts with.  Every \<^verbatim>\<open>abort\<close> of the source
  comes before the call of \<^verbatim>\<open>save_state\<close>, so the state stored after a request is
  the following.
\<close>

definition stored :: "'s \<Rightarrow> error + 's \<Rightarrow> 's" where
  "stored old r = (case r of Inl e \<Rightarrow> old | Inr new \<Rightarrow> new)"

section \<open>Schema graph engine\<close>

text \<open>
  The two tests of \<^verbatim>\<open>delete_table\<close> and \<^verbatim>\<open>delete_column\<close>.  \<^verbatim>\<open>l.from_id == t_id\<close> and
  \<^verbatim>\<open>l.from_id in col_ids\<close> compare a stored value with strings, by equality.
\<close>

definition link_refs_table :: "Link \<Rightarrow> string \<Rightarrow> bool" where
  "link_refs_table l t_id =
     ((link_from_type l = ''table'' \<and> link_from_id l = JStr t_id)
      \<or> (link_to_type l = ''table'' \<and> link_to_id l = JStr t_id))"

definition link_refs_columns :: "Link \<Rightarrow> string list \<Rightarrow> bool" where
  "link_refs_columns l col_ids =
     ((link_from_type l = ''column'' \<and> link_from_id l \<in> JStr ` set col_ids)
      \<or> (link_to_type l = ''column'' \<and> link_to_id l \<in> JStr ` set col_ids))"

text \<open>\<^verbatim>\<open>for l_id in to_remove: db.links.pop(l_id, None)\<close>\<close>

definition pop_all :: "string list \<Rightarrow> 'v dict \<Rightarrow> 'v dict" where
  "pop_all to_remove links = fold AList.delete to_remove links"

definition delete_table ::
  "string option \<Rightarrow> Database dict \<Rightarrow> string \<Rightarrow> string \<Rightarrow> error + Database dict" where
  "delete_table pin dbs db_id' t_id =
     (if no_pin pin then Inl Unauthorized
      else case map_of dbs db_id' of
        None \<Rightarrow> Inl NotFound
      | Some db \<Rightarrow>
          (case map_of (db_tables db) t_id of
             Some t \<Rightarrow>
               (let to_remove = map fst (filter (\<lambda>(l_id, l). link_refs_table l t_id) (db_links db));
                    links1 = pop_all to_remove (db_links db);
                    col_ids = map fst (tbl_columns t);
                    to_remove2 = map fst (filter (\<lambda>(l_id, l). link_refs_columns l col_ids) links1);
                    links2 = pop_all to_remove2 links1;
                    tables' = AList.delete t_id (db_tables db)
                in Inr (AList.update db_id' (db\<lparr>db_links := links2, db_tables := tables'\<rparr>) dbs))
           | None \<Rightarrow> Inl NotFound))"

definition delete_column ::
  "string option \<Rightarrow> Database dict \<Rightarrow> string \<Rightarrow> string \<Rightarrow> string \<Rightarrow> error + Database dict" where
  "delete_column pin dbs db_id' t_id c_id =
     (if no_pin pin then Inl Unauthorized
      else case map_of dbs db_id' of
        None \<Rightarrow> Inl NotFound
      | Some db \<Rightarrow>
          (case map_of (db_tables db) t_id of
             None \<Rightarrow> Inl NotFound
           | Some t \<Rightarrow>
               (case map_of (tbl_columns t) c_id of
                  Some c \<Rightarrow>
                    (let to_remove = map fst (filter (\<lambda>(l_id, l). link_refs_columns l [c_id]) (db_links db));
                         links1 = pop_all to_remove (db_links db);
                         t' = t\<lparr>tbl_columns := AList.delete c_id (tbl_columns t)\<rparr>
                     in Inr (AList.update db_id'
                          (db\<lparr>db_links := links1, db_tables := AList.update t_id t' (db_tables db)\<rparr>) dbs))
                | None \<Rightarrow> Inl NotFound)))"

subsection \<open>Creating a column\<close>

text \<open>
  The JSON body of a request is read field by field with \<^verbatim>\<open>data.get\<close>; a field is
  absent (\<open>None\<close>) or carries a value.  The two identifiers of \<^verbatim>\<open>foreign_ref\<close> are stored
  as they come when both are truthy, whatever JSON value they are.  The other fields
  carry the type of their annotation: a body whose \<^verbatim>\<open>name\<close> is no string is outside this
  model of the handler.
\<close>

record foreign_ref_req =
  frq_table_id :: "json option"
  frq_column_id :: "json option"
  frq_note :: "string option"

record column_req =
  cr_name :: "string option"
  cr_datatype :: "string option"
  cr_is_primary :: "bool option"
  cr_is_nullable :: "bool option"
  cr_default :: "string option"
  cr_note :: "string option"
  cr_foreign_ref :: "foreign_ref_req option"

text \<open>\<^verbatim>\<open>a or b\<close> on strings: the first one unless it is missing or empty.\<close>

definition or_else :: "string option \<Rightarrow> string \<Rightarrow> string" where
  "or_else a b = (case a of None \<Rightarrow> b | Some s \<Rightarrow> if s = [] then b else s)"

definition truthy :: "string option \<Rightarrow> bool" where
  "truthy a = (case a of None \<Rightarrow> False | Some s \<Rightarrow> s \<noteq> [])"

text \<open>\<^verbatim>\<open>max(xs, default=d)\<close>\<close>

definition py_max :: "int list \<Rightarrow> int \<Rightarrow> int" where
  "py_max xs d = (case xs of [] \<Rightarrow> d | x # ys \<Rightarrow> fold max ys x)"

text \<open>
  The order of the next column.  The \<^verbatim>\<open>except\<close> branch of the source is never taken:
  the order of a stored column is an integer.
\<close>

definition next_order :: "Column dict \<Rightarrow> int" where
  "next_order columns =
     (if columns \<noteq> [] then py_max (map (\<lambda>(c_id, col). col_order col) columns) (- 1) + 1 else 0)"

definition foreign_ref_of_req :: "foreign_ref_req option \<Rightarrow> ForeignRef option" where
  "foreign_ref_of_req r =
     (case r of
        None \<Rightarrow> None
      | Some fr_raw \<Rightarrow>
          if field_truthy (frq_table_id fr_raw) \<and> field_truthy (frq_column_id fr_raw)
          then Some \<lparr>fr_table_id = the (frq_table_id fr_raw),
                      fr_column_id = the (frq_column_id fr_raw),
                      fr_note = (case frq_note fr_raw of None \<Rightarrow> [] | Some n \<Rightarrow> n)\<rparr>
          else None)"

text \<open>\<open>c_id\<close> is the identifier that \<^verbatim>\<open>gen_id()\<close> returns to the request.\<close>

definition create_column ::
  "string option \<Rightarrow> string \<Rightarrow> Database dict \<Rightarrow> string \<Rightarrow> string \<Rightarrow> column_req
     \<Rightarrow> error + (Database dict \<times> Column)" where
  "create_column pin c_id dbs db_id' t_id data =
     (if no_pin pin then Inl Unauthorized
      else case map_of dbs db_id' of
        None \<Rightarrow> Inl NotFound
      | Some db \<Rightarrow>
          (case map_of (db_tables db) t_id of
             None \<Rightarrow> Inl NotFound
           | Some t \<Rightarrow>
               (let name = or_else (Some (strip (or_else (cr_name data) ''column''))) ''column'';
                    fr = foreign_ref_of_req (cr_foreign_ref data);
                    col = \<lparr>col_id = c_id, col_name = name,
                            col_datatype = (case cr_datatype data of None \<Rightarrow> ''TEXT'' | Some d \<Rightarrow> d),
                            col_is_primary = (case cr_is_primary data of None \<Rightarrow> False | Some b \<Rightarrow> b),
                            col_is_nullable = (case cr_is_nullable data of None \<Rightarrow> True | Some b \<Rightarrow> b),
                            col_default = cr_default data,
                            col_note = (case cr_note data of None \<Rightarrow> [] | Some n \<Rightarrow> n),
                            col_foreign_ref = fr,
                            col_order = next_order (tbl_columns t)\<rparr>;
                    t' = t\<lparr>tbl_columns := AList.update c_id col (tbl_columns t)\<rparr>;
                    db' = db\<lparr>db_tables := AList.update t_id t' (db_tables db)\<rparr>
                in Inr (AList.update db_id' db' dbs, col))))"

text \<open>
  A run of \<^verbatim>\<open>create_column\<close> requests on one table, each given the state the one
  before stored; it yields the last state and the columns the requests returned.
\<close>

fun create_columns ::
  "string option \<Rightarrow> Database dict \<Rightarrow> string \<Rightarrow> string \<Rightarrow> (string \<times> column_req) list
     \<Rightarrow> error + (Database dict \<times> Column list)" where
  "create_columns pin dbs db_id' t_id [] = Inr (dbs, [])"
| "create_columns pin dbs db_id' t_id ((c_id, data) # rs) =
     (case create_column pin c_id dbs db_id' t_id data of
        Inl e \<Rightarrow> Inl e
      | Inr (dbs1, col) \<Rightarrow>
          (case create_columns pin dbs1 db_id' t_id rs of
             Inl e \<Rightarrow> Inl e
           | Inr (dbs2, cols) \<Rightarrow> Inr (dbs2, col # cols)))"


section \<open>Document tree store\<close>

text \<open>
  Time stamps (\<^verbatim>\<open>time.time()\<close>) are kept as integers; no handler computes with them.
\<close>

record DocNote =
  note_id :: string
  note_start_line :: int
  note_end_line :: int
  note_text :: string
  note_author :: string
  note_created_at :: int

record Document =
  doc_id :: string
  doc_name :: string
  doc_parent_id :: json
  doc_content :: json
  doc_notes :: "DocNote dict"
  doc_updated_at :: int

record DocFolder =
  folder_id :: string
  folder_name :: string
  folder_parent_id :: json


text \<open>What \<^verbatim>\<open>load_docs\<close> returns and \<^verbatim>\<open>save_docs\<close> stores for one PIN.\<close>

type_synonym docs_state = "DocFolder dict \<times> Document dict"

text \<open>
  The body of a folder request: a key is absent (\<open>None\<close>) or carries a JSON value, which
  is \<open>JNull\<close> for \<^verbatim>\<open>null\<close>.
\<close>

record folder_req =
  fq_name :: "json option"
  fq_parent_id :: "json option"

text \<open>
  \<^verbatim>\<open>pid and pid not in folders\<close>, the test before \<^verbatim>\<open>abort(400)\<close>: the dict is searched only
  for a truthy \<open>pid\<close>.
\<close>

definition missing_parent :: "DocFolder dict \<Rightarrow> json \<Rightarrow> error + bool" where
  "missing_parent folders pid =
     (if json_truthy pid then
        (case dict_get folders pid of Inl e \<Rightarrow> Inl e | Inr r \<Rightarrow> Inr (r = None))
      else Inr False)"

text \<open>\<open>fid\<close> is the identifier that \<^verbatim>\<open>gen_id()\<close> returns to the request.\<close>

definition api_create_folder ::
  "string option \<Rightarrow> string \<Rightarrow> docs_state \<Rightarrow> folder_req \<Rightarrow> error + docs_state" where
  "api_create_folder pin fid st data =
     (case st of (folders, documents) \<Rightarrow>
        if no_pin pin then Inl Unauthorized
        else case json_strip (json_or (fq_name data) (JStr ''New Folder'')) of
          Inl e \<Rightarrow> Inl e
        | Inr stripped \<Rightarrow>
            (let name = or_else (Some stripped) ''New Folder'';
                 parent_id = json_or (fq_parent_id data) JNull
             in case missing_parent folders parent_id of
                  Inl e \<Rightarrow> Inl e
                | Inr missing \<Rightarrow>
                    if missing then Inl InvalidInput
                    else Inr (AList.update fid
                                \<lparr>folder_id = fid, folder_name = name, folder_parent_id = parent_id\<rparr>
                                folders,
                              documents)))"

definition api_update_folder ::
  "string option \<Rightarrow> string \<Rightarrow> docs_state \<Rightarrow> folder_req \<Rightarrow> error + docs_state" where
  "api_update_folder pin fid st data =
     (case st of (folders, documents) \<Rightarrow>
        if no_pin pin then Inl Unauthorized
        else case map_of folders fid of
          None \<Rightarrow> Inl NotFound
        | Some f \<Rightarrow>
            (case (case fq_name data of
                     None \<Rightarrow> Inr f
                   | Some v \<Rightarrow>
                       (case json_strip v of
                          Inl e \<Rightarrow> Inl e
                        | Inr n \<Rightarrow> Inr (f\<lparr>folder_name := or_else (Some n) (folder_name f)\<rparr>))) of
               Inl e \<Rightarrow> Inl e
             | Inr f1 \<Rightarrow>
                 (case fq_parent_id data of
                    None \<Rightarrow> Inr (AList.update fid f1 folders, documents)
                  | Some pid \<Rightarrow>
                      (case missing_parent folders pid of
                         Inl e \<Rightarrow> Inl e
                       | Inr missing \<Rightarrow>
                           if missing then Inl InvalidInput
                           else Inr (AList.update fid (f1\<lparr>folder_parent_id := pid\<rparr>) folders,
                                     documents)))))"

definition api_delete_folder ::
  "string option \<Rightarrow> string \<Rightarrow> docs_state \<Rightarrow> error + docs_state" where
  "api_delete_folder pin fid st =
     (case st of (folders, documents) \<Rightarrow>
        if no_pin pin then Inl Unauthorized
        else if map_of folders fid = None then Inl NotFound
        else if (\<exists>d \<in> set (map snd documents). doc_parent_id d = JStr fid)
                \<or> (\<exists>f \<in> set (filter (\<lambda>f. folder_id f \<noteq> fid) (map snd folders)).
                      folder_parent_id f = JStr fid)
        then Inl InvalidInput
        else Inr (AList.delete fid folders, documents))"

text \<open>
  The body of a document update, and the update.  \<open>now\<close> is the reading of the clock.
  The new \<^verbatim>\<open>parent_id\<close> is stored when it is falsy or the key of a folder.
\<close>

record doc_req =
  dq_name :: "json option"
  dq_parent_id :: "json option"
  dq_content :: "json option"

definition api_update_doc ::
  "string option \<Rightarrow> int \<Rightarrow> string \<Rightarrow> docs_state \<Rightarrow> doc_req \<Rightarrow> error + docs_state" where
  "api_update_doc pin now doc_id' st data =
     (case st of (folders, documents) \<Rightarrow>
        if no_pin pin then Inl Unauthorized
        else case map_of documents doc_id' of
          None \<Rightarrow> Inl NotFound
        | Some d \<Rightarrow>
            (case (case dq_name data of
                     None \<Rightarrow> Inr d
                   | Some v \<Rightarrow>
                       (case json_strip v of
                          Inl e \<Rightarrow> Inl e
                        | Inr n \<Rightarrow> Inr (d\<lparr>doc_name := or_else (Some n) (doc_name d)\<rparr>))) of
               Inl e \<Rightarrow> Inl e
             | Inr d1 \<Rightarrow>
                 (case (case dq_parent_id data of
                          None \<Rightarrow> Inr d1
                        | Some pid \<Rightarrow>
                            (case missing_parent folders pid of
                               Inl e \<Rightarrow> Inl e
                             | Inr missing \<Rightarrow>
                                 if missing then Inl InvalidInput
                                 else Inr (d1\<lparr>doc_parent_id := pid\<rparr>))) of
                    Inl e \<Rightarrow> Inl e
                  | Inr d2 \<Rightarrow>
                      (let d3 = (case dq_content data of
                                   None \<Rightarrow> d2
                                 | Some c \<Rightarrow> d2\<lparr>doc_content := c\<rparr>);
                           touched = (dq_name data \<noteq> None \<or> dq_parent_id data \<noteq> None
                                      \<or> dq_content data \<noteq> None);
                           d4 = (if touched then d3\<lparr>doc_updated_at := now\<rparr> else d3)
                       in Inr (folders, AList.update doc_id' d4 documents)))))"

text \<open>
  A run of folder requests, each given the state that the one before stored; it stops at
  the first request that is refused.
\<close>

datatype folder_op = CreateFolder string folder_req | UpdateFolder string folder_req

fun apply_folder_op :: "string option \<Rightarrow> docs_state \<Rightarrow> folder_op \<Rightarrow> error + docs_state" where
  "apply_folder_op pin st (CreateFolder fid data) = api_create_folder pin fid st data"
| "apply_folder_op pin st (UpdateFolder fid data) = api_update_folder pin fid st data"

fun run_folder_ops :: "string option \<Rightarrow> docs_state \<Rightarrow> folder_op list \<Rightarrow> error + docs_state" where
  "run_folder_ops pin st [] = Inr st"
| "run_folder_ops pin st (op # ops) =
     (case apply_folder_op pin st op of
        Inl e \<Rightarrow> Inl e
      | Inr st1 \<Rightarrow> run_folder_ops pin st1 ops)"

text \<open>
  Following the parent links upwards: the folders from which the chain of
  \<^verbatim>\<open>parent_id\<close>s reaches \<open>root\<close> in one step or more.  A folder tree has a cycle when some
  folder is reached from itself.
\<close>

inductive_set descendants :: "DocFolder dict \<Rightarrow> string \<Rightarrow> string set"
  for folders :: "DocFolder dict" and root :: string where
  child: "(fid, f) \<in> set folders \<Longrightarrow> folder_parent_id f = JStr root
            \<Longrightarrow> fid \<in> descendants folders root"
| above: "(fid, f) \<in> set folders \<Longrightarrow> folder_parent_id f = JStr p
            \<Longrightarrow> p \<in> descendants folders root \<Longrightarrow> fid \<in> descendants folders root"

definition has_cycle :: "DocFolder dict \<Rightarrow> bool" where
  "has_cycle folders = (\<exists>fid. fid \<in> descendants folders fid)"

definition parents_exist :: "DocFolder dict \<Rightarrow> bool" where
  "parents_exist folders =
     (\<forall>(fid, f) \<in> set folders. \<forall>p. folder_parent_id f = JStr p \<longrightarrow> p \<in> fst ` set folders)"

section \<open>Share resolver\<close>

text \<open>
  The loop that every share handler runs to collect the subtree of the shared folder:
  \<^verbatim>\<open>pending\<close> is a stack whose top is the last element.
\<close>

function subtree_loop :: "DocFolder dict \<Rightarrow> string set \<Rightarrow> string list \<Rightarrow> string set" where
  "subtree_loop folders subtree pending =
     (if pending = [] then subtree
      else
        let x = last pending;
            pending1 = butlast pending;
            subtree1 = insert x subtree;
            pending2 = pending1 @
              map fst (filter (\<lambda>(fid, f). folder_parent_id f = JStr x \<and> fid \<notin> subtree1) folders)
        in subtree_loop folders subtree1 pending2)"
  by pat_completeness auto
termination
proof (relation "(\<lambda>(folders, subtree, pending). card ((fst ` set folders \<union> set pending) - subtree))
                   <*mlex*> measure (\<lambda>(folders, subtree, pending). length (filter (\<lambda>x. x \<in> subtree) pending))")
  show "wf ((\<lambda>(folders, subtree, pending). card ((fst ` set folders \<union> set pending) - subtree))
                   <*mlex*> measure (\<lambda>(folders, subtree, pending). length (filter (\<lambda>x. x \<in> subtree) pending)))"
    by (rule wf_mlex) simp
next
  fix folders :: "DocFolder dict" and subtree :: "string set" and pending :: "string list"
    and x pending1 subtree1 pending2
  assume ne: "pending \<noteq> []" and x: "x = last pending" and p1: "pending1 = butlast pending"
    and s1: "subtree1 = insert x subtree"
    and p2: "pending2 = pending1 @
              map fst (filter (\<lambda>(fid, f). folder_parent_id f = JStr x \<and> fid \<notin> subtree1) folders)"
  let ?K = "fst ` set folders"
  from ne have split: "pending = pending1 @ [x]" by (simp add: x p1)
  have sub2: "set pending2 \<subseteq> set pending1 \<union> (?K - subtree1)"
    by (auto simp: p2)
  have incl: "(?K \<union> set pending2) - subtree1 \<subseteq> (?K \<union> set pending) - subtree"
    using sub2 by (auto simp: s1 split)
  have fin: "finite ((?K \<union> set pending) - subtree)" by simp
  show "((folders, subtree1, pending2), (folders, subtree, pending))
      \<in> (\<lambda>(folders, subtree, pending). card ((fst ` set folders \<union> set pending) - subtree))
                   <*mlex*> measure (\<lambda>(folders, subtree, pending). length (filter (\<lambda>x. x \<in> subtree) pending))"
  proof (cases "x \<in> subtree")
    case False
    have "x \<in> (?K \<union> set pending) - subtree" using False by (simp add: split)
    moreover have "x \<notin> (?K \<union> set pending2) - subtree1" by (simp add: s1)
    ultimately have "(?K \<union> set pending2) - subtree1 \<subset> (?K \<union> set pending) - subtree"
      using incl by blast
    then have "card ((?K \<union> set pending2) - subtree1) < card ((?K \<union> set pending) - subtree)"
      using fin by (rule psubset_card_mono [rotated])
    then show ?thesis by (simp add: mlex_less)
  next
    case True
    then have same: "subtree1 = subtree" by (auto simp: s1)
    have "card ((?K \<union> set pending2) - subtree1) \<le> card ((?K \<union> set pending) - subtree)"
      using fin incl by (rule card_mono)
    moreover have "filter (\<lambda>y. y \<in> subtree1) pending2 = filter (\<lambda>y. y \<in> subtree) pending1"
      by (auto simp: p2 same filter_empty_conv)
    then have "length (filter (\<lambda>y. y \<in> subtree1) pending2) < length (filter (\<lambda>y. y \<in> subtree) pending)"
      using True by (simp add: split)
    ultimately show ?thesis by (simp add: mlex_leq)
  qed
qed

declare subtree_loop.simps [simp del]

definition resolve_subtree :: "DocFolder dict \<Rightarrow> string \<Rightarrow> string set" where
  "resolve_subtree folders root = subtree_loop folders {} [root]"
















section \<open>Duplication engine\<close>

text \<open>
  \<^verbatim>\<open>gen_id()\<close> draws a random identifier.  A request is given the sequence \<open>g\<close> of the
  identifiers it draws: \<open>g k\<close> is what the \<open>k\<close>-th call returns.  The local variables of
  \<^verbatim>\<open>duplicate_database\<close> form the state of its first pass; the two identifier maps are
  dicts like the others.
\<close>

record dup_state =
  ds_next :: nat
  ds_tables :: "Table dict"
  ds_table_id_map :: "string dict"
  ds_col_id_map :: "string dict"
  ds_pending_refs :: "(string \<times> string \<times> ForeignRef) list"

text \<open>
  The body of the inner loop.  \<^verbatim>\<open>new_table\<close> is the object stored under \<open>t_new_id\<close> in
  \<^verbatim>\<open>new_db.tables\<close>, so \<^verbatim>\<open>new_table.columns[c_new_id] = new_col\<close> changes that entry.
\<close>

definition copy_column :: "(nat \<Rightarrow> string) \<Rightarrow> string \<Rightarrow> dup_state \<Rightarrow> string \<times> Column \<Rightarrow> dup_state" where
  "copy_column g t_new_id st oc =
     (case oc of (c_old_id, c) \<Rightarrow>
        let c_new_id = g (ds_next st);
            new_col = \<lparr>col_id = c_new_id, col_name = col_name c, col_datatype = col_datatype c,
                        col_is_primary = col_is_primary c, col_is_nullable = col_is_nullable c,
                        col_default = col_default c, col_note = col_note c,
                        col_foreign_ref = None, col_order = 0\<rparr>
        in st\<lparr>ds_next := Suc (ds_next st),
               ds_col_id_map := AList.update c_old_id c_new_id (ds_col_id_map st),
               ds_tables := AList.map_entry t_new_id
                  (\<lambda>new_table. new_table\<lparr>tbl_columns :=
                       AList.update c_new_id new_col (tbl_columns new_table)\<rparr>) (ds_tables st),
               ds_pending_refs := (case col_foreign_ref c of
                                     None \<Rightarrow> ds_pending_refs st
                                   | Some fr \<Rightarrow> ds_pending_refs st @ [(t_new_id, c_new_id, fr)])\<rparr>)"

definition copy_table :: "(nat \<Rightarrow> string) \<Rightarrow> dup_state \<Rightarrow> string \<times> Table \<Rightarrow> dup_state" where
  "copy_table g st ot =
     (case ot of (t_old_id, t) \<Rightarrow>
        let t_new_id = g (ds_next st);
            new_table = \<lparr>tbl_id = t_new_id, tbl_name = tbl_name t, tbl_note = tbl_note t,
                          tbl_columns = []\<rparr>;
            st1 = st\<lparr>ds_next := Suc (ds_next st),
                     ds_table_id_map := AList.update t_old_id t_new_id (ds_table_id_map st),
                     ds_tables := AList.update t_new_id new_table (ds_tables st)\<rparr>
        in foldl (copy_column g t_new_id) st1 (tbl_columns t))"

text \<open>
  The second pass.  The identifiers of a pending reference are whatever was stored, so
  that each \<^verbatim>\<open>.get\<close> may raise \<^verbatim>\<open>TypeError\<close>; a mapped identifier is a string, and
  \<^verbatim>\<open>new_db.tables[t_new_id].columns[c_new_id]\<close> raises \<^verbatim>\<open>KeyError\<close> when an index is
  missing.
\<close>

fun resolve_refs ::
  "string dict \<Rightarrow> string dict \<Rightarrow> (string \<times> string \<times> ForeignRef) list
     \<Rightarrow> Table dict \<Rightarrow> error + Table dict" where
  "resolve_refs table_id_map col_id_map [] tables = Inr tables"
| "resolve_refs table_id_map col_id_map ((t_new_id, c_new_id, fr) # rest) tables =
     (case dict_get table_id_map (fr_table_id fr) of
        Inl e \<Rightarrow> Inl e
      | Inr mapped_t \<Rightarrow>
          (case dict_get col_id_map (fr_column_id fr) of
             Inl e \<Rightarrow> Inl e
           | Inr mapped_c \<Rightarrow>
               if truthy mapped_t \<and> truthy mapped_c then
                 (case map_of tables t_new_id of
                    None \<Rightarrow> Inl KeyError
                  | Some t \<Rightarrow>
                      (case map_of (tbl_columns t) c_new_id of
                         None \<Rightarrow> Inl KeyError
                       | Some c \<Rightarrow>
                           resolve_refs table_id_map col_id_map rest
                             (AList.update t_new_id
                                (t\<lparr>tbl_columns := AList.update c_new_id
                                     (c\<lparr>col_foreign_ref := Some \<lparr>fr_table_id = JStr (the mapped_t),
                                           fr_column_id = JStr (the mapped_c), fr_note = fr_note fr\<rparr>\<rparr>)
                                     (tbl_columns t)\<rparr>) tables)))
               else resolve_refs table_id_map col_id_map rest tables))"

text \<open>\<^verbatim>\<open>m.get(i, i)\<close>, and the same chosen by the type of the endpoint.\<close>

definition get_or_same :: "string dict \<Rightarrow> json \<Rightarrow> error + json" where
  "get_or_same m i =
     (case dict_get m i of
        Inl e \<Rightarrow> Inl e
      | Inr None \<Rightarrow> Inr i
      | Inr (Some j) \<Rightarrow> Inr (JStr j))"

definition remap_endpoint ::
  "string dict \<Rightarrow> string dict \<Rightarrow> string \<Rightarrow> json \<Rightarrow> error + json" where
  "remap_endpoint table_id_map col_id_map ty i =
     (if ty = ''table'' then get_or_same table_id_map i
      else if ty = ''column'' then get_or_same col_id_map i
      else Inr i)"

text \<open>The third loop; \<open>n\<close> counts the identifiers drawn so far.\<close>

fun copy_links ::
  "(nat \<Rightarrow> string) \<Rightarrow> string dict \<Rightarrow> string dict \<Rightarrow> nat \<Rightarrow> Link dict \<Rightarrow> Link dict
     \<Rightarrow> error + Link dict" where
  "copy_links g table_id_map col_id_map n links [] = Inr links"
| "copy_links g table_id_map col_id_map n links ((l_id, l) # rest) =
     (let new_l_id = g n
      in case remap_endpoint table_id_map col_id_map (link_from_type l) (link_from_id l) of
           Inl e \<Rightarrow> Inl e
         | Inr from_id_new \<Rightarrow>
             (case remap_endpoint table_id_map col_id_map (link_to_type l) (link_to_id l) of
                Inl e \<Rightarrow> Inl e
              | Inr to_id_new \<Rightarrow>
                  copy_links g table_id_map col_id_map (Suc n)
                    (AList.update new_l_id
                       \<lparr>link_id = new_l_id, link_from_type = link_from_type l,
                         link_from_id = from_id_new, link_to_type = link_to_type l,
                         link_to_id = to_id_new, link_note = link_note l\<rparr>
                       links)
                    rest))"

text \<open>The part of \<^verbatim>\<open>duplicate_database\<close> that builds \<^verbatim>\<open>new_db\<close> from \<^verbatim>\<open>src\<close>.\<close>

definition duplicate_db :: "(nat \<Rightarrow> string) \<Rightarrow> Database \<Rightarrow> error + Database" where
  "duplicate_db g src =
     (let new_db_id = g 0;
          st = foldl (copy_table g)
                 \<lparr>ds_next = 1, ds_tables = [], ds_table_id_map = [],
                   ds_col_id_map = [], ds_pending_refs = []\<rparr>
                 (db_tables src)
      in case resolve_refs (ds_table_id_map st) (ds_col_id_map st) (ds_pending_refs st) (ds_tables st) of
           Inl e \<Rightarrow> Inl e
         | Inr tables \<Rightarrow>
             (case copy_links g (ds_table_id_map st) (ds_col_id_map st) (ds_next st) []
                     (db_links src) of
                Inl e \<Rightarrow> Inl e
              | Inr links \<Rightarrow>
                  Inr \<lparr>db_id = new_db_id, db_name = db_name src @ '' (copy)'', db_note = db_note src,
                        db_tables = tables, db_links = links, db_diagram = []\<rparr>))"

definition duplicate_database ::
  "(nat \<Rightarrow> string) \<Rightarrow> string option \<Rightarrow> Database dict \<Rightarrow> string
     \<Rightarrow> error + (Database dict \<times> Database)" where
  "duplicate_database g pin dbs db_id' =
     (if no_pin pin then Inl Unauthorized
      else case map_of dbs db_id' of
        None \<Rightarrow> Inl NotFound
      | Some src \<Rightarrow>
          (case duplicate_db g src of
             Inl e \<Rightarrow> Inl e
           | Inr new_db \<Rightarrow> Inr (AList.update (db_id new_db) new_db dbs, new_db)))"

subsection \<open>The entities of a database\<close>

definition all_columns :: "Table dict \<Rightarrow> Column dict" where
  "all_columns tables = concat (map (\<lambda>(t_id, t). tbl_columns t) tables)"

text \<open>
  An endpoint or a reference resolves in a database when the entity it names is there:
  it is the string that is the key of a table or of a column.
\<close>

definition table_keys :: "Database \<Rightarrow> json set" where
  "table_keys db = JStr ` fst ` set (db_tables db)"

definition column_keys :: "Database \<Rightarrow> json set" where
  "column_keys db = JStr ` fst ` set (all_columns (db_tables db))"

definition endpoint_in :: "Database \<Rightarrow> string \<Rightarrow> json \<Rightarrow> bool" where
  "endpoint_in db ty i =
     ((ty = ''table'' \<and> i \<in> table_keys db) \<or> (ty = ''column'' \<and> i \<in> column_keys db))"

definition links_resolve :: "Database \<Rightarrow> bool" where
  "links_resolve db =
     (\<forall>(l_id, l) \<in> set (db_links db).
        endpoint_in db (link_from_type l) (link_from_id l)
        \<and> endpoint_in db (link_to_type l) (link_to_id l))"

definition foreign_refs_resolve :: "Database \<Rightarrow> bool" where
  "foreign_refs_resolve db =
     (\<forall>(c_id, c) \<in> set (all_columns (db_tables db)). \<forall>fr. col_foreign_ref c = Some fr \<longrightarrow>
        fr_table_id fr \<in> table_keys db \<and> fr_column_id fr \<in> column_keys db)"

text \<open>
  The values that the duplication looks up in its identifier maps: both identifiers of
  every foreign reference, and the endpoints of type \<^verbatim>\<open>table\<close> and \<^verbatim>\<open>column\<close> of every
  link.  A lookup raises unless the value has a hash.
\<close>

definition cols_hashable :: "Column dict \<Rightarrow> bool" where
  "cols_hashable columns =
     (\<forall>(c_id, c) \<in> set columns. \<forall>fr. col_foreign_ref c = Some fr \<longrightarrow>
        hashable (fr_table_id fr) \<and> hashable (fr_column_id fr))"

definition refs_hashable :: "Table dict \<Rightarrow> bool" where
  "refs_hashable tables = (\<forall>(t_id, t) \<in> set tables. cols_hashable (tbl_columns t))"

definition links_hashable :: "Link dict \<Rightarrow> bool" where
  "links_hashable links =
     (\<forall>(l_id, l) \<in> set links.
        (link_from_type l \<in> {''table'', ''column''} \<longrightarrow> hashable (link_from_id l))
        \<and> (link_to_type l \<in> {''table'', ''column''} \<longrightarrow> hashable (link_to_id l)))"

definition lookups_hashable :: "Database \<Rightarrow> bool" where
  "lookups_hashable db = (refs_hashable (db_tables db) \<and> links_hashable (db_links db))"

text \<open>Every identifier that a database holds: keys and \<^verbatim>\<open>id\<close> fields.\<close>

definition db_ids :: "Database \<Rightarrow> string list" where
  "db_ids db =
     db_id db # map fst (db_tables db) @ map (\<lambda>(t_id, t). tbl_id t) (db_tables db)
       @ map fst (all_columns (db_tables db)) @ map (\<lambda>(c_id, c). col_id c) (all_columns (db_tables db))
       @ map fst (db_links db) @ map (\<lambda>(l_id, l). link_id l) (db_links db)"

text \<open>The pointers of a database: what its foreign references and link endpoints name.\<close>

definition db_pointers :: "Database \<Rightarrow> json list" where
  "db_pointers db =
     concat (map (\<lambda>(c_id, c). case col_foreign_ref c of
                                 None \<Rightarrow> []
                               | Some fr \<Rightarrow> [fr_table_id fr, fr_column_id fr])
               (all_columns (db_tables db)))
       @ concat (map (\<lambda>(l_id, l). [link_from_id l, link_to_id l]) (db_links db))"

text \<open>
  The number of identifiers a duplication draws, and the contract of the identity
  generator for it: the identifiers drawn are pairwise different, and new.
\<close>

definition copy_cost :: "Table dict \<Rightarrow> nat" where
  "copy_cost tables = sum_list (map (\<lambda>(t_id, t). Suc (length (tbl_columns t))) tables)"

definition ids_needed :: "Database \<Rightarrow> nat" where
  "ids_needed db = Suc (copy_cost (db_tables db) + length (db_links db))"

definition unique_ids :: "(nat \<Rightarrow> string) \<Rightarrow> Database \<Rightarrow> bool" where
  "unique_ids g db = distinct (map g [0..<ids_needed db])"

definition new_ids :: "(nat \<Rightarrow> string) \<Rightarrow> Database \<Rightarrow> bool" where
  "new_ids g db = (\<forall>k \<in> set [0..<ids_needed db]. g k \<notin> set (db_ids db))"

subsection \<open>The copy as a function of the source\<close>

text \<open>
  What the passes compute when the identifiers drawn are pairwise different and no lookup
  raises, written by recursion over the source; \<open>f\<close> is what becomes of a foreign
  reference.  \<open>lookup\<close> is the value of \<^verbatim>\<open>m.get(k)\<close> when it does not raise.
\<close>

definition lookup :: "string dict \<Rightarrow> json \<Rightarrow> string option" where
  "lookup m k = (case k of JStr s \<Rightarrow> map_of m s | _ \<Rightarrow> None)"

fun copy_cols_of ::
  "(ForeignRef \<Rightarrow> ForeignRef option) \<Rightarrow> (nat \<Rightarrow> string) \<Rightarrow> nat \<Rightarrow> Column dict \<Rightarrow> Column dict" where
  "copy_cols_of f g n [] = []"
| "copy_cols_of f g n ((c_old_id, c) # cs) =
     (g n, \<lparr>col_id = g n, col_name = col_name c, col_datatype = col_datatype c,
             col_is_primary = col_is_primary c, col_is_nullable = col_is_nullable c,
             col_default = col_default c, col_note = col_note c,
             col_foreign_ref = (case col_foreign_ref c of None \<Rightarrow> None | Some fr \<Rightarrow> f fr),
             col_order = 0\<rparr>)
     # copy_cols_of f g (Suc n) cs"

fun copy_tables_of ::
  "(ForeignRef \<Rightarrow> ForeignRef option) \<Rightarrow> (nat \<Rightarrow> string) \<Rightarrow> nat \<Rightarrow> Table dict \<Rightarrow> Table dict" where
  "copy_tables_of f g n [] = []"
| "copy_tables_of f g n ((t_old_id, t) # ts) =
     (g n, \<lparr>tbl_id = g n, tbl_name = tbl_name t, tbl_note = tbl_note t,
             tbl_columns = copy_cols_of f g (Suc n) (tbl_columns t)\<rparr>)
     # copy_tables_of f g (Suc n + length (tbl_columns t)) ts"

fun cols_pending ::
  "(nat \<Rightarrow> string) \<Rightarrow> string \<Rightarrow> nat \<Rightarrow> Column dict \<Rightarrow> (string \<times> string \<times> ForeignRef) list" where
  "cols_pending g t_new_id n [] = []"
| "cols_pending g t_new_id n ((c_old_id, c) # cs) =
     (case col_foreign_ref c of None \<Rightarrow> [] | Some fr \<Rightarrow> [(t_new_id, g n, fr)])
     @ cols_pending g t_new_id (Suc n) cs"

fun tables_pending ::
  "(nat \<Rightarrow> string) \<Rightarrow> nat \<Rightarrow> Table dict \<Rightarrow> (string \<times> string \<times> ForeignRef) list" where
  "tables_pending g n [] = []"
| "tables_pending g n ((t_old_id, t) # ts) =
     cols_pending g (g n) (Suc n) (tbl_columns t)
     @ tables_pending g (Suc n + length (tbl_columns t)) ts"

fun cols_map ::
  "(nat \<Rightarrow> string) \<Rightarrow> nat \<Rightarrow> Column dict \<Rightarrow> string dict \<Rightarrow> string dict" where
  "cols_map g n [] m = m"
| "cols_map g n ((c_old_id, c) # cs) m = cols_map g (Suc n) cs (AList.update c_old_id (g n) m)"

fun tables_tmap ::
  "(nat \<Rightarrow> string) \<Rightarrow> nat \<Rightarrow> Table dict \<Rightarrow> string dict \<Rightarrow> string dict" where
  "tables_tmap g n [] m = m"
| "tables_tmap g n ((t_old_id, t) # ts) m =
     tables_tmap g (Suc n + length (tbl_columns t)) ts (AList.update t_old_id (g n) m)"

fun tables_cmap ::
  "(nat \<Rightarrow> string) \<Rightarrow> nat \<Rightarrow> Table dict \<Rightarrow> string dict \<Rightarrow> string dict" where
  "tables_cmap g n [] m = m"
| "tables_cmap g n ((t_old_id, t) # ts) m =
     tables_cmap g (Suc n + length (tbl_columns t)) ts (cols_map g (Suc n) (tbl_columns t) m)"

definition remap_ref ::
  "string dict \<Rightarrow> string dict \<Rightarrow> ForeignRef \<Rightarrow> ForeignRef option" where
  "remap_ref tm cm fr =
     (if truthy (lookup tm (fr_table_id fr)) \<and> truthy (lookup cm (fr_column_id fr))
      then Some \<lparr>fr_table_id = JStr (the (lookup tm (fr_table_id fr))),
                  fr_column_id = JStr (the (lookup cm (fr_column_id fr))),
                  fr_note = fr_note fr\<rparr>
      else None)"

definition remap_id :: "string dict \<Rightarrow> string dict \<Rightarrow> string \<Rightarrow> json \<Rightarrow> json" where
  "remap_id tm cm ty i =
     (if ty = ''table'' then (case lookup tm i of None \<Rightarrow> i | Some j \<Rightarrow> JStr j)
      else if ty = ''column'' then (case lookup cm i of None \<Rightarrow> i | Some j \<Rightarrow> JStr j)
      else i)"

fun copy_links_of ::
  "string dict \<Rightarrow> string dict \<Rightarrow> (nat \<Rightarrow> string) \<Rightarrow> nat \<Rightarrow> Link dict \<Rightarrow> Link dict" where
  "copy_links_of tm cm g n [] = []"
| "copy_links_of tm cm g n ((l_id, l) # ls) =
     (g n, \<lparr>link_id = g n, link_from_type = link_from_type l,
             link_from_id = remap_id tm cm (link_from_type l) (link_from_id l),
             link_to_type = link_to_type l,
             link_to_id = remap_id tm cm (link_to_type l) (link_to_id l),
             link_note = link_note l\<rparr>)
     # copy_links_of tm cm g (Suc n) ls"

definition copy_tmap :: "(nat \<Rightarrow> string) \<Rightarrow> Database \<Rightarrow> string dict" where
  "copy_tmap g src = tables_tmap g 1 (db_tables src) []"

definition copy_cmap :: "(nat \<Rightarrow> string) \<Rightarrow> Database \<Rightarrow> string dict" where
  "copy_cmap g src = tables_cmap g 1 (db_tables src) []"

definition copy_of :: "(nat \<Rightarrow> string) \<Rightarrow> Database \<Rightarrow> Database" where
  "copy_of g src =
     \<lparr>db_id = g 0, db_name = db_name src @ '' (copy)'', db_note = db_note src,
       db_tables = copy_tables_of (remap_ref (copy_tmap g src) (copy_cmap g src)) g 1 (db_tables src),
       db_links = copy_links_of (copy_tmap g src) (copy_cmap g src) g
                    (Suc (copy_cost (db_tables src))) (db_links src),
       db_diagram = []\<rparr>"


section \<open>A small workspace used to instantiate the theorems\<close>

definition ex_c1 :: Column where
  "ex_c1 = \<lparr>col_id = ''c1'', col_name = ''id'', col_datatype = ''INT'', col_is_primary = True,
     col_is_nullable = False, col_default = None, col_note = [], col_foreign_ref = None,
     col_order = 0\<rparr>"

definition ex_c2 :: Column where
  "ex_c2 = \<lparr>col_id = ''c2'', col_name = ''user_id'', col_datatype = ''INT'', col_is_primary = False,
     col_is_nullable = False, col_default = None, col_note = [],
     col_foreign_ref = Some \<lparr>fr_table_id = JStr ''t1'', fr_column_id = JStr ''c1'', fr_note = []\<rparr>,
     col_order = 0\<rparr>"

definition ex_c3 :: Column where
  "ex_c3 = \<lparr>col_id = ''c3'', col_name = ''total'', col_datatype = ''TEXT'', col_is_primary = False,
     col_is_nullable = True, col_default = Some ''0'', col_note = [], col_foreign_ref = None,
     col_order = 1\<rparr>"

definition ex_t1 :: Table where
  "ex_t1 = \<lparr>tbl_id = ''t1'', tbl_name = ''Users'', tbl_note = [], tbl_columns = [(''c1'', ex_c1)]\<rparr>"

definition ex_t2 :: Table where
  "ex_t2 = \<lparr>tbl_id = ''t2'', tbl_name = ''Orders'', tbl_note = [],
     tbl_columns = [(''c2'', ex_c2), (''c3'', ex_c3)]\<rparr>"

definition ex_l1 :: Link where
  "ex_l1 = \<lparr>link_id = ''l1'', link_from_type = ''column'', link_from_id = JStr ''c2'',
     link_to_type = ''column'', link_to_id = JStr ''c1'', link_note = ''fk''\<rparr>"

definition ex_l2 :: Link where
  "ex_l2 = \<lparr>link_id = ''l2'', link_from_type = ''table'', link_from_id = JStr ''t2'',
     link_to_type = ''table'', link_to_id = JStr ''t1'', link_note = []\<rparr>"

definition ex_l3 :: Link where
  "ex_l3 = \<lparr>link_id = ''l3'', link_from_type = ''column'', link_from_id = JStr ''c3'',
     link_to_type = ''table'', link_to_id = JStr ''t2'', link_note = []\<rparr>"

definition ex_db :: Database where
  "ex_db = \<lparr>db_id = ''d1'', db_name = ''Shop'', db_note = [],
     db_tables = [(''t1'', ex_t1), (''t2'', ex_t2)],
     db_links = [(''l1'', ex_l1), (''l2'', ex_l2), (''l3'', ex_l3)],
     db_diagram = []\<rparr>"

definition ex_dbs :: "Database dict" where
  "ex_dbs = [(''d1'', ex_db)]"

definition ex_req :: "string \<Rightarrow> column_req" where
  "ex_req n = \<lparr>cr_name = Some n, cr_datatype = None, cr_is_primary = None, cr_is_nullable = None,
     cr_default = None, cr_note = None, cr_foreign_ref = None\<rparr>"

definition ex_empty_dbs :: "Database dict" where
  "ex_empty_dbs = [(''d1'', \<lparr>db_id = ''d1'', db_name = ''Shop'', db_note = [],
     db_tables = [(''t1'', \<lparr>tbl_id = ''t1'', tbl_name = ''Users'', tbl_note = [], tbl_columns = []\<rparr>)],
     db_links = [], db_diagram = []\<rparr>)]"


definition ex_folders :: "DocFolder dict" where
  "ex_folders =
     [(''fa'', \<lparr>folder_id = ''fa'', folder_name = ''A'', folder_parent_id = JNull\<rparr>),
      (''fb'', \<lparr>folder_id = ''fb'', folder_name = ''B'', folder_parent_id = JStr ''fa''\<rparr>),
      (''fc'', \<lparr>folder_id = ''fc'', folder_name = ''C'', folder_parent_id = JNull\<rparr>)]"

definition ex_doc1 :: Document where
  "ex_doc1 = \<lparr>doc_id = ''k1'', doc_name = ''Doc1'', doc_parent_id = JStr ''fb'', doc_content = JStr ''# Doc1'',
     doc_notes = [], doc_updated_at = 0\<rparr>"

definition ex_doc2 :: Document where
  "ex_doc2 = \<lparr>doc_id = ''k2'', doc_name = ''Doc2'', doc_parent_id = JStr ''fc'', doc_content = JStr ''# Doc2'',
     doc_notes = [], doc_updated_at = 0\<rparr>"

definition ex_documents :: "Document dict" where
  "ex_documents = [(''k1'', ex_doc1), (''k2'', ex_doc2)]"

definition ex_load_docs :: "string \<Rightarrow> docs_state" where
  "ex_load_docs pin = (if pin = ''p'' then (ex_folders, ex_documents) else ([], []))"




definition ex_move_req :: doc_req where
  "ex_move_req = \<lparr>dq_name = None, dq_parent_id = Some (JList []), dq_content = None\<rparr>"

definition ex_doc3 :: Document where
  "ex_doc3 = \<lparr>doc_id = ''k2'', doc_name = ''Doc2'', doc_parent_id = JList [],
     doc_content = JStr ''# Doc2'', doc_notes = [], doc_updated_at = 7\<rparr>"

definition ex_load_docs_moved :: "string \<Rightarrow> docs_state" where
  "ex_load_docs_moved pin =
     (if pin = ''p'' then (ex_folders, [(''k1'', ex_doc1), (''k2'', ex_doc3)]) else ([], []))"

definition ex_cyclic_folders :: "DocFolder dict" where
  "ex_cyclic_folders =
     [(''f1'', \<lparr>folder_id = ''f1'', folder_name = ''A'', folder_parent_id = JStr ''f2''\<rparr>),
      (''f2'', \<lparr>folder_id = ''f2'', folder_name = ''B'', folder_parent_id = JStr ''f1''\<rparr>),
      (''f3'', \<lparr>folder_id = ''f3'', folder_name = ''C'', folder_parent_id = JNull\<rparr>)]"



definition ex_self_folder :: DocFolder where
  "ex_self_folder = \<lparr>folder_id = ''fx'', folder_name = ''X'', folder_parent_id = JStr ''fx''\<rparr>"


definition ex_gen :: "nat \<Rightarrow> string" where
  "ex_gen k = [''n0'', ''n1'', ''n2'', ''n3'', ''n4'', ''n5'', ''n6'', ''n7'', ''n8'', ''n9''] ! k"





definition ex_db_clean :: Database where
  "ex_db_clean = \<lparr>db_id = ''d1'', db_name = ''Shop'', db_note = [],
     db_tables = [(''t1'', ex_t1)], db_links = [], db_diagram = []\<rparr>"

definition ex_garbage_req :: column_req where
  "ex_garbage_req = \<lparr>cr_name = Some ''ref'', cr_datatype = None, cr_is_primary = None,
     cr_is_nullable = None, cr_default = None, cr_note = None,
     cr_foreign_ref = Some \<lparr>frq_table_id = Some (JList [JStr ''t1'']),
                             frq_column_id = Some (JStr ''c1''), frq_note = None\<rparr>\<rparr>"

definition ex_c5 :: Column where
  "ex_c5 = \<lparr>col_id = ''c5'', col_name = ''ref'', col_datatype = ''TEXT'', col_is_primary = False,
     col_is_nullable = True, col_default = None, col_note = [],
     col_foreign_ref = Some \<lparr>fr_table_id = JList [JStr ''t1''], fr_column_id = JStr ''c1'',
                              fr_note = []\<rparr>,
     col_order = 1\<rparr>"

definition ex_db_garbage :: Database where
  "ex_db_garbage = \<lparr>db_id = ''d1'', db_name = ''Shop'', db_note = [],
     db_tables = [(''t1'', \<lparr>tbl_id = ''t1'', tbl_name = ''Users'', tbl_note = [],
                            tbl_columns = [(''c1'', ex_c1), (''c5'', ex_c5)]\<rparr>)],
     db_links = [], db_diagram = []\<rparr>"


section \<open>Properties\<close>

text \<open>The definitions of the example schema, for evaluation.\<close>

lemmas ex_defs = ex_c1_def ex_c2_def ex_c3_def ex_t1_def ex_t2_def ex_l1_def ex_l2_def ex_l3_def
  ex_db_def ex_dbs_def

subsection \<open>Dictionaries\<close>

lemma set_delete: "set (AList.delete k d) = {p \<in> set d. fst p \<noteq> k}"
  by (auto simp: AList.delete_eq)

lemma pop_all_set: "set (pop_all ks d) = {p \<in> set d. fst p \<notin> set ks}"
  unfolding pop_all_def
proof (induction ks arbitrary: d)
  case Nil
  show ?case by simp
next
  case (Cons k ks)
  have "set (fold AList.delete ks (AList.delete k d))
      = {p \<in> set (AList.delete k d). fst p \<notin> set ks}"
    by (rule Cons.IH)
  then show ?case by (auto simp: set_delete)
qed

lemma pop_all_filter_none:
  assumes "(k, v) \<in> set (pop_all (map fst (filter (\<lambda>(k, v). P v) d)) d)"
  shows "\<not> P v" and "(k, v) \<in> set d"
proof -
  from assms have mem: "(k, v) \<in> set d"
    and "k \<notin> fst ` {p \<in> set d. case p of (k, v) \<Rightarrow> P v}"
    by (auto simp: pop_all_set)
  then show "\<not> P v" by force
  from mem show "(k, v) \<in> set d" .
qed

lemma map_of_update_same: "map_of (AList.update k v d) k = Some v"
  by (simp add: update_conv')

subsection \<open>Deleting a table\<close>

text \<open>
  C2.  Deleting a table \<open>t_id\<close> that is present in database \<open>db_id'\<close> succeeds, and in the
  stored database no remaining link has an endpoint that is the table \<open>t_id\<close>
  (type \<^verbatim>\<open>table\<close>, that id) or a column that belonged to it (type \<^verbatim>\<open>column\<close>, the id of
  one of its columns), on either side.  When \<open>t_id\<close> is absent the request fails with
  NotFound and the stored state is the one before.
\<close>

theorem delete_table_cascade:
  assumes "\<not> no_pin pin" and "map_of dbs db_id' = Some db"
  shows "(\<forall>t. map_of (db_tables db) t_id = Some t \<longrightarrow>
            (\<exists>dbs' db'. delete_table pin dbs db_id' t_id = Inr dbs'
               \<and> map_of dbs' db_id' = Some db'
               \<and> map_of (db_tables db') t_id = None
               \<and> (\<forall>(l_id, l) \<in> set (db_links db').
                     \<not> link_refs_table l t_id
                     \<and> \<not> link_refs_columns l (map fst (tbl_columns t)))))
       \<and> (map_of (db_tables db) t_id = None \<longrightarrow>
            delete_table pin dbs db_id' t_id = Inl NotFound
            \<and> stored dbs (delete_table pin dbs db_id' t_id) = dbs)"
proof (intro conjI allI impI)
  fix t
  assume t: "map_of (db_tables db) t_id = Some t"
  define links1 where
    "links1 = pop_all (map fst (filter (\<lambda>(l_id, l). link_refs_table l t_id) (db_links db))) (db_links db)"
  define links2 where
    "links2 = pop_all (map fst (filter (\<lambda>(l_id, l). link_refs_columns l (map fst (tbl_columns t))) links1)) links1"
  define db' where
    "db' = db\<lparr>db_links := links2, db_tables := AList.delete t_id (db_tables db)\<rparr>"
  have res: "delete_table pin dbs db_id' t_id = Inr (AList.update db_id' db' dbs)"
    using assms t by (simp add: delete_table_def Let_def links1_def links2_def db'_def)
  have clean: "\<not> link_refs_table l t_id \<and> \<not> link_refs_columns l (map fst (tbl_columns t))"
    if "(l_id, l) \<in> set links2" for l_id l
  proof -
    from that have a: "\<not> link_refs_columns l (map fst (tbl_columns t))" and b: "(l_id, l) \<in> set links1"
      unfolding links2_def by (rule pop_all_filter_none)+
    from b have "\<not> link_refs_table l t_id"
      unfolding links1_def by (rule pop_all_filter_none)
    with a show ?thesis by simp
  qed
  have "map_of (AList.update db_id' db' dbs) db_id' = Some db'"
    by (rule map_of_update_same)
  moreover have "map_of (db_tables db') t_id = None"
    by (simp add: db'_def delete_conv')
  moreover have "\<forall>(l_id, l) \<in> set (db_links db').
      \<not> link_refs_table l t_id \<and> \<not> link_refs_columns l (map fst (tbl_columns t))"
    using clean by (auto simp: db'_def)
  ultimately show "\<exists>dbs' db'. delete_table pin dbs db_id' t_id = Inr dbs'
      \<and> map_of dbs' db_id' = Some db'
      \<and> map_of (db_tables db') t_id = None
      \<and> (\<forall>(l_id, l) \<in> set (db_links db').
            \<not> link_refs_table l t_id \<and> \<not> link_refs_columns l (map fst (tbl_columns t)))"
    using res by blast
next
  assume "map_of (db_tables db) t_id = None"
  then show "delete_table pin dbs db_id' t_id = Inl NotFound"
    using assms by (simp add: delete_table_def)
  then show "stored dbs (delete_table pin dbs db_id' t_id) = dbs"
    by (simp add: stored_def)
qed


theorem delete_table_cascade_witness:
  "\<not> no_pin (Some ''p'') \<and> map_of ex_dbs ''d1'' = Some ex_db
   \<and> map_of (db_tables ex_db) ''t1'' = Some ex_t1
   \<and> (\<exists>dbs' db'. delete_table (Some ''p'') ex_dbs ''d1'' ''t1'' = Inr dbs'
         \<and> map_of dbs' ''d1'' = Some db'
         \<and> map_of (db_tables db') ''t1'' = None
         \<and> (\<forall>(l_id, l) \<in> set (db_links db').
               \<not> link_refs_table l ''t1'' \<and> \<not> link_refs_columns l (map fst (tbl_columns ex_t1))))
   \<and> map_of (db_tables ex_db) ''t9'' = None
   \<and> delete_table (Some ''p'') ex_dbs ''d1'' ''t9'' = Inl NotFound
   \<and> stored ex_dbs (delete_table (Some ''p'') ex_dbs ''d1'' ''t9'') = ex_dbs"
proof -
  have p: "\<not> no_pin (Some ''p'')" by (simp add: no_pin_def)
  have d: "map_of ex_dbs ''d1'' = Some ex_db" by (simp add: ex_dbs_def)
  have t: "map_of (db_tables ex_db) ''t1'' = Some ex_t1" by (simp add: ex_db_def)
  have n: "map_of (db_tables ex_db) ''t9'' = None" by (simp add: ex_db_def)
  note A = delete_table_cascade [OF p d, of "''t1''", THEN conjunct1, rule_format, OF t]
  note B = delete_table_cascade [OF p d, of "''t9''", THEN conjunct2, rule_format, OF n]
  show ?thesis
    by (intro conjI p d t n A B [THEN conjunct1] B [THEN conjunct2])
qed

subsection \<open>Deleting a column\<close>

text \<open>
  C3.  Deleting column \<open>c_id\<close> of table \<open>t_id\<close> succeeds; afterwards no link of the database
  has the column as an endpoint (type \<^verbatim>\<open>column\<close>, that id) on either side, the table no
  longer has the column, and every other column of every table is stored as it was,
  with the foreign reference it had: a reference that names the deleted column stays.
\<close>

theorem delete_column_keeps_foreign_refs:
  assumes "\<not> no_pin pin" and "map_of dbs db_id' = Some db"
    and "map_of (db_tables db) t_id = Some t" and "map_of (tbl_columns t) c_id = Some c"
  shows "\<exists>dbs' db' t'. delete_column pin dbs db_id' t_id c_id = Inr dbs'
           \<and> map_of dbs' db_id' = Some db'
           \<and> (\<forall>(l_id, l) \<in> set (db_links db'). \<not> link_refs_columns l [c_id])
           \<and> map_of (db_tables db') t_id = Some t'
           \<and> map_of (tbl_columns t') c_id = None
           \<and> (\<forall>k tb ck col. map_of (db_tables db) k = Some tb
                  \<longrightarrow> map_of (tbl_columns tb) ck = Some col
                  \<longrightarrow> (k, ck) \<noteq> (t_id, c_id)
                  \<longrightarrow> (\<exists>tb'. map_of (db_tables db') k = Some tb'
                         \<and> map_of (tbl_columns tb') ck = Some col))"
proof -
  define links1 where
    "links1 = pop_all (map fst (filter (\<lambda>(l_id, l). link_refs_columns l [c_id]) (db_links db))) (db_links db)"
  define t' where "t' = t\<lparr>tbl_columns := AList.delete c_id (tbl_columns t)\<rparr>"
  define db' where
    "db' = db\<lparr>db_links := links1, db_tables := AList.update t_id t' (db_tables db)\<rparr>"
  have res: "delete_column pin dbs db_id' t_id c_id = Inr (AList.update db_id' db' dbs)"
    using assms by (simp add: delete_column_def Let_def links1_def t'_def db'_def)
  have a: "map_of (AList.update db_id' db' dbs) db_id' = Some db'"
    by (rule map_of_update_same)
  have "\<not> link_refs_columns l [c_id]" if "(l_id, l) \<in> set links1" for l_id l
    using that unfolding links1_def by (rule pop_all_filter_none)
  then have b: "\<forall>(l_id, l) \<in> set (db_links db'). \<not> link_refs_columns l [c_id]"
    by (auto simp: db'_def)
  have c: "map_of (db_tables db') t_id = Some t'"
    by (simp add: db'_def update_conv')
  have d: "map_of (tbl_columns t') c_id = None"
    by (simp add: t'_def delete_conv')
  have e: "\<exists>tb'. map_of (db_tables db') k = Some tb' \<and> map_of (tbl_columns tb') ck = Some col"
    if "map_of (db_tables db) k = Some tb" "map_of (tbl_columns tb) ck = Some col"
      "(k, ck) \<noteq> (t_id, c_id)" for k tb ck col
  proof (cases "k = t_id")
    case True
    with that assms(3) have "tb = t" "ck \<noteq> c_id" by auto
    with that True show ?thesis
      by (simp add: db'_def t'_def update_conv' delete_conv')
  next
    case False
    with that show ?thesis by (simp add: db'_def update_conv')
  qed
  from res a b c d e show ?thesis by blast
qed

theorem delete_column_keeps_foreign_refs_witness:
  "\<not> no_pin (Some ''p'') \<and> map_of ex_dbs ''d1'' = Some ex_db
   \<and> map_of (db_tables ex_db) ''t1'' = Some ex_t1 \<and> map_of (tbl_columns ex_t1) ''c1'' = Some ex_c1
   \<and> map_of (db_tables ex_db) ''t2'' = Some ex_t2 \<and> map_of (tbl_columns ex_t2) ''c2'' = Some ex_c2
   \<and> map_option fr_column_id (col_foreign_ref ex_c2) = Some (JStr ''c1'')
   \<and> (\<exists>dbs' db' tb'. delete_column (Some ''p'') ex_dbs ''d1'' ''t1'' ''c1'' = Inr dbs'
         \<and> map_of dbs' ''d1'' = Some db'
         \<and> map_of (db_tables db') ''t2'' = Some tb'
         \<and> map_of (tbl_columns tb') ''c2'' = Some ex_c2)"
proof -
  have p: "\<not> no_pin (Some ''p'')" by (simp add: no_pin_def)
  have d: "map_of ex_dbs ''d1'' = Some ex_db" by (simp add: ex_dbs_def)
  have t: "map_of (db_tables ex_db) ''t1'' = Some ex_t1" by (simp add: ex_db_def)
  have c: "map_of (tbl_columns ex_t1) ''c1'' = Some ex_c1" by (simp add: ex_t1_def)
  have t2: "map_of (db_tables ex_db) ''t2'' = Some ex_t2" by (simp add: ex_db_def)
  have c2: "map_of (tbl_columns ex_t2) ''c2'' = Some ex_c2" by (simp add: ex_t2_def)
  have f: "map_option fr_column_id (col_foreign_ref ex_c2) = Some (JStr ''c1'')" by (simp add: ex_c2_def)
  have ne: "(''t2'', ''c2'') \<noteq> (''t1'', ''c1'')" by simp
  from delete_column_keeps_foreign_refs [OF p d t c]
  obtain dbs' db' t' where r: "delete_column (Some ''p'') ex_dbs ''d1'' ''t1'' ''c1'' = Inr dbs'"
    and m: "map_of dbs' ''d1'' = Some db'"
    and rest: "\<forall>k tb ck col. map_of (db_tables ex_db) k = Some tb
                  \<longrightarrow> map_of (tbl_columns tb) ck = Some col
                  \<longrightarrow> (k, ck) \<noteq> (''t1'', ''c1'')
                  \<longrightarrow> (\<exists>tb'. map_of (db_tables db') k = Some tb'
                         \<and> map_of (tbl_columns tb') ck = Some col)"
    by (elim exE conjE)
  from rest [rule_format, OF t2 c2 ne]
  obtain tb' where s: "map_of (db_tables db') ''t2'' = Some tb'"
    and u: "map_of (tbl_columns tb') ''c2'' = Some ex_c2"
    by (elim exE conjE)
  have "\<exists>dbs' db' tb'. delete_column (Some ''p'') ex_dbs ''d1'' ''t1'' ''c1'' = Inr dbs'
         \<and> map_of dbs' ''d1'' = Some db'
         \<and> map_of (db_tables db') ''t2'' = Some tb'
         \<and> map_of (tbl_columns tb') ''c2'' = Some ex_c2"
    by (rule exI [of _ dbs'], rule exI [of _ db'], rule exI [of _ tb']) (intro conjI r m s u)
  then show ?thesis
    by (intro conjI p d t c t2 c2 f)
qed

subsection \<open>Creating columns\<close>

lemma py_max_Max: "xs \<noteq> [] \<Longrightarrow> py_max xs d = Max (set xs)"
  by (cases xs) (simp_all add: py_max_def Max.set_eq_fold [symmetric])

lemma next_order_Max:
  "columns \<noteq> [] \<Longrightarrow> next_order columns = Max (col_order ` snd ` set columns) + 1"
proof -
  assume ne: "columns \<noteq> []"
  have "set (map (\<lambda>(c_id, col). col_order col) columns) = col_order ` snd ` set columns"
    by force
  with ne show ?thesis
    by (simp add: next_order_def py_max_Max del: set_map)
qed

lemma update_fresh: "k \<notin> fst ` set al \<Longrightarrow> AList.update k v al = al @ [(k, v)]"
  by (induction al) auto

lemma set_update_sub: "set (AList.update k v al) \<subseteq> insert (k, v) (set al)"
  by (induction al) auto

lemma update_mem: "(k, v) \<in> set (AList.update k v al)"
  by (induction al) auto

lemma next_order_update:
  assumes "col_order col = next_order columns"
  shows "next_order (AList.update c_id col columns) = next_order columns + 1"
proof -
  let ?new = "AList.update c_id col columns"
  let ?O = "col_order ` snd ` set ?new"
  have ne: "?new \<noteq> []" by simp
  have mem: "col_order col \<in> ?O"
    using update_mem [of c_id col columns] by force
  have le: "x \<le> col_order col" if "x \<in> ?O" for x
  proof -
    from that set_update_sub [of c_id col columns]
    have "x = col_order col \<or> x \<in> col_order ` snd ` set columns" by force
    then show ?thesis
    proof
      assume "x = col_order col"
      then show ?thesis by simp
    next
      assume x: "x \<in> col_order ` snd ` set columns"
      then have c: "columns \<noteq> []" by auto
      from x have "x \<le> Max (col_order ` snd ` set columns)" by simp
      with assms c show ?thesis by (simp add: next_order_Max)
    qed
  qed
  have "Max ?O = col_order col"
    by (rule Max_eqI) (use mem le in auto)
  with ne assms show ?thesis by (simp add: next_order_Max)
qed

lemma create_column_result:
  assumes "\<not> no_pin pin" and "map_of dbs db_id' = Some db" and "map_of (db_tables db) t_id = Some t"
  shows "\<exists>col. create_column pin c_id dbs db_id' t_id data =
           Inr (AList.update db_id'
                  (db\<lparr>db_tables := AList.update t_id
                         (t\<lparr>tbl_columns := AList.update c_id col (tbl_columns t)\<rparr>) (db_tables db)\<rparr>) dbs,
                col)
         \<and> col_order col = next_order (tbl_columns t)"
  using assms by (simp add: create_column_def Let_def)

lemma create_columns_orders:
  assumes "\<not> no_pin pin"
  shows "map_of dbs db_id' = Some db \<Longrightarrow> map_of (db_tables db) t_id = Some t
    \<Longrightarrow> next_order (tbl_columns t) = int k
    \<Longrightarrow> \<exists>dbs' cols db' t'. create_columns pin dbs db_id' t_id reqs = Inr (dbs', cols)
          \<and> map col_order cols = map int [k..<k + length reqs]
          \<and> map_of dbs' db_id' = Some db' \<and> map_of (db_tables db') t_id = Some t'
          \<and> (distinct (map fst reqs) \<longrightarrow> set (map fst reqs) \<inter> fst ` set (tbl_columns t) = {}
               \<longrightarrow> map fst (tbl_columns t') = map fst (tbl_columns t) @ map fst reqs
                 \<and> map (\<lambda>(c_id, col). col_order col) (tbl_columns t')
                    = map (\<lambda>(c_id, col). col_order col) (tbl_columns t) @ map int [k..<k + length reqs])"
proof (induction reqs arbitrary: dbs db t k)
  case Nil
  then show ?case by simp
next
  case (Cons r rs)
  obtain c_id data where r: "r = (c_id, data)" by (cases r)
  from create_column_result [OF assms Cons.prems(1,2), of c_id data]
  obtain col where
    step: "create_column pin c_id dbs db_id' t_id data =
           Inr (AList.update db_id'
                  (db\<lparr>db_tables := AList.update t_id
                         (t\<lparr>tbl_columns := AList.update c_id col (tbl_columns t)\<rparr>) (db_tables db)\<rparr>) dbs,
                col)"
    and ord: "col_order col = next_order (tbl_columns t)"
    by (elim exE conjE)
  define t1 where "t1 = t\<lparr>tbl_columns := AList.update c_id col (tbl_columns t)\<rparr>"
  define db1 where "db1 = db\<lparr>db_tables := AList.update t_id t1 (db_tables db)\<rparr>"
  define dbs1 where "dbs1 = AList.update db_id' db1 dbs"
  have d1: "map_of dbs1 db_id' = Some db1" by (simp add: dbs1_def update_conv')
  have tt1: "map_of (db_tables db1) t_id = Some t1" by (simp add: db1_def update_conv')
  have n1: "next_order (tbl_columns t1) = int (Suc k)"
    using next_order_update [OF ord, of c_id] Cons.prems(3) by (simp add: t1_def)
  from Cons.IH [OF d1 tt1 n1]
  obtain dbs' cols db' t' where
    run: "create_columns pin dbs1 db_id' t_id rs = Inr (dbs', cols)"
    and ords: "map col_order cols = map int [Suc k..<Suc k + length rs]"
    and d': "map_of dbs' db_id' = Some db'" and t': "map_of (db_tables db') t_id = Some t'"
    and st: "distinct (map fst rs) \<longrightarrow> set (map fst rs) \<inter> fst ` set (tbl_columns t1) = {}
               \<longrightarrow> map fst (tbl_columns t') = map fst (tbl_columns t1) @ map fst rs
                 \<and> map (\<lambda>(c_id, col). col_order col) (tbl_columns t')
                    = map (\<lambda>(c_id, col). col_order col) (tbl_columns t1) @ map int [Suc k..<Suc k + length rs]"
    by (elim exE conjE)
  have upt: "[k..<k + length (r # rs)] = k # [Suc k..<Suc k + length rs]"
    using upt_conv_Cons [of k "k + length (r # rs)"] by simp
  have a: "create_columns pin dbs db_id' t_id (r # rs) = Inr (dbs', col # cols)"
    using step run by (simp add: r dbs1_def db1_def t1_def)
  have b: "map col_order (col # cols) = map int [k..<k + length (r # rs)]"
    unfolding upt using ords ord Cons.prems(3) by simp
  have c: "map fst (tbl_columns t') = map fst (tbl_columns t) @ map fst (r # rs)
         \<and> map (\<lambda>(c_id, col). col_order col) (tbl_columns t')
            = map (\<lambda>(c_id, col). col_order col) (tbl_columns t) @ map int [k..<k + length (r # rs)]"
    if dist: "distinct (map fst (r # rs))"
      and disj: "set (map fst (r # rs)) \<inter> fst ` set (tbl_columns t) = {}"
  proof -
    from disj have fresh: "c_id \<notin> fst ` set (tbl_columns t)" by (auto simp: r)
    then have cols1: "tbl_columns t1 = tbl_columns t @ [(c_id, col)]"
      by (simp add: t1_def update_fresh)
    from dist disj have "distinct (map fst rs)"
      and "set (map fst rs) \<inter> fst ` set (tbl_columns t1) = {}"
      by (auto simp: cols1 r)
    with st have "map fst (tbl_columns t') = map fst (tbl_columns t1) @ map fst rs"
      and "map (\<lambda>(c_id, col). col_order col) (tbl_columns t')
            = map (\<lambda>(c_id, col). col_order col) (tbl_columns t1) @ map int [Suc k..<Suc k + length rs]"
      by blast+
    then show ?thesis
      unfolding upt using ord Cons.prems(3) by (simp add: cols1 r)
  qed
  from a b c d' t' show ?case by blast
qed

text \<open>
  C6.  A created column gets the order 0 in a table without columns and otherwise the
  greatest order among the table's columns plus one.  So a run of \<open>N\<close> creations on a
  table that starts without columns returns columns of orders \<open>0, 1, ..., N - 1\<close> in
  the order of creation, and when the generated identifiers are pairwise different
  the table then holds exactly these columns, in that order.
\<close>

theorem create_column_order:
  assumes "\<not> no_pin pin" and "map_of dbs db_id' = Some db" and "map_of (db_tables db) t_id = Some t"
  shows "(\<exists>dbs' col. create_column pin c_id dbs db_id' t_id data = Inr (dbs', col)
            \<and> col_order col =
                (if tbl_columns t = [] then 0 else Max (col_order ` snd ` set (tbl_columns t)) + 1))
       \<and> (tbl_columns t = [] \<longrightarrow>
            (\<exists>dbs' cols db' t'. create_columns pin dbs db_id' t_id reqs = Inr (dbs', cols)
               \<and> map col_order cols = map int [0..<length reqs]
               \<and> map_of dbs' db_id' = Some db' \<and> map_of (db_tables db') t_id = Some t'
               \<and> (distinct (map fst reqs) \<longrightarrow>
                     map fst (tbl_columns t') = map fst reqs
                     \<and> map (\<lambda>(c_id, col). col_order col) (tbl_columns t') = map int [0..<length reqs])))"
proof (intro conjI impI)
  from create_column_result [OF assms, of c_id data]
  obtain col where
    "create_column pin c_id dbs db_id' t_id data =
           Inr (AList.update db_id'
                  (db\<lparr>db_tables := AList.update t_id
                         (t\<lparr>tbl_columns := AList.update c_id col (tbl_columns t)\<rparr>) (db_tables db)\<rparr>) dbs,
                col)"
    and "col_order col = next_order (tbl_columns t)"
    by (elim exE conjE)
  moreover have "next_order (tbl_columns t) =
      (if tbl_columns t = [] then 0 else Max (col_order ` snd ` set (tbl_columns t)) + 1)"
    by (simp add: next_order_Max) (simp add: next_order_def)
  ultimately show "\<exists>dbs' col. create_column pin c_id dbs db_id' t_id data = Inr (dbs', col)
            \<and> col_order col =
                (if tbl_columns t = [] then 0 else Max (col_order ` snd ` set (tbl_columns t)) + 1)"
    by (metis (no_types, lifting))
next
  assume e: "tbl_columns t = []"
  then have "next_order (tbl_columns t) = int 0" by (simp add: next_order_def)
  from create_columns_orders [OF assms this, of reqs] e
  show "\<exists>dbs' cols db' t'. create_columns pin dbs db_id' t_id reqs = Inr (dbs', cols)
               \<and> map col_order cols = map int [0..<length reqs]
               \<and> map_of dbs' db_id' = Some db' \<and> map_of (db_tables db') t_id = Some t'
               \<and> (distinct (map fst reqs) \<longrightarrow>
                     map fst (tbl_columns t') = map fst reqs
                     \<and> map (\<lambda>(c_id, col). col_order col) (tbl_columns t') = map int [0..<length reqs])"
    by simp
qed

theorem create_column_order_witness:
  "\<not> no_pin (Some ''p'') \<and> map_of ex_dbs ''d1'' = Some ex_db
   \<and> map_of (db_tables ex_db) ''t2'' = Some ex_t2
   \<and> (\<exists>dbs' col. create_column (Some ''p'') ''n1'' ex_dbs ''d1'' ''t2'' (ex_req ''x'') = Inr (dbs', col)
         \<and> col_order col = 2)
   \<and> distinct (map fst [(''a1'', ex_req ''id''), (''a2'', ex_req ''name''), (''a3'', ex_req ''email'')])
   \<and> (\<exists>dbs' cols db' t'.
         create_columns (Some ''p'') ex_empty_dbs ''d1'' ''t1''
           [(''a1'', ex_req ''id''), (''a2'', ex_req ''name''), (''a3'', ex_req ''email'')] = Inr (dbs', cols)
         \<and> map col_order cols = [0, 1, 2]
         \<and> map_of dbs' ''d1'' = Some db' \<and> map_of (db_tables db') ''t1'' = Some t'
         \<and> map fst (tbl_columns t') = [''a1'', ''a2'', ''a3'']
         \<and> map (\<lambda>(c_id, col). col_order col) (tbl_columns t') = [0, 1, 2])"
proof -
  let ?reqs = "[(''a1'', ex_req ''id''), (''a2'', ex_req ''name''), (''a3'', ex_req ''email'')]"
  let ?db0 = "\<lparr>db_id = ''d1'', db_name = ''Shop'', db_note = [],
     db_tables = [(''t1'', \<lparr>tbl_id = ''t1'', tbl_name = ''Users'', tbl_note = [], tbl_columns = []\<rparr>)],
     db_links = [], db_diagram = []\<rparr>"
  let ?t0 = "\<lparr>tbl_id = ''t1'', tbl_name = ''Users'', tbl_note = [], tbl_columns = []\<rparr>"
  have p: "\<not> no_pin (Some ''p'')" by (simp add: no_pin_def)
  have d: "map_of ex_dbs ''d1'' = Some ex_db" by (simp add: ex_dbs_def)
  have t: "map_of (db_tables ex_db) ''t2'' = Some ex_t2" by (simp add: ex_db_def)
  have m: "(if tbl_columns ex_t2 = [] then 0 else Max (col_order ` snd ` set (tbl_columns ex_t2)) + 1) = 2"
    by (simp add: ex_t2_def ex_c2_def ex_c3_def)
  have A: "\<exists>dbs' col. create_column (Some ''p'') ''n1'' ex_dbs ''d1'' ''t2'' (ex_req ''x'') = Inr (dbs', col)
         \<and> col_order col = 2"
    using create_column_order [OF p d t, of "''n1''" "ex_req ''x''", THEN conjunct1]
    unfolding m .
  have d0: "map_of ex_empty_dbs ''d1'' = Some ?db0" by (simp add: ex_empty_dbs_def)
  have t0: "map_of (db_tables ?db0) ''t1'' = Some ?t0" by simp
  have e0: "tbl_columns ?t0 = []" by simp
  have dist: "distinct (map fst ?reqs)" by simp
  have len: "map int [0..<length ?reqs] = [0, 1, 2]" by (simp add: upt_rec)
  have keys: "map fst ?reqs = [''a1'', ''a2'', ''a3'']" by simp
  have B: "\<exists>dbs' cols db' t'.
         create_columns (Some ''p'') ex_empty_dbs ''d1'' ''t1'' ?reqs = Inr (dbs', cols)
         \<and> map col_order cols = [0, 1, 2]
         \<and> map_of dbs' ''d1'' = Some db' \<and> map_of (db_tables db') ''t1'' = Some t'
         \<and> (distinct (map fst ?reqs) \<longrightarrow> map fst (tbl_columns t') = [''a1'', ''a2'', ''a3'']
         \<and> map (\<lambda>(c_id, col). col_order col) (tbl_columns t') = [0, 1, 2])"
    using create_column_order [OF p d0 t0, of _ _ ?reqs, THEN conjunct2, rule_format, OF e0]
    unfolding len keys .
  from B obtain dbs' cols db' t' where
    b1: "create_columns (Some ''p'') ex_empty_dbs ''d1'' ''t1'' ?reqs = Inr (dbs', cols)"
    and b2: "map col_order cols = [0, 1, 2]"
    and b3: "map_of dbs' ''d1'' = Some db'" and b4: "map_of (db_tables db') ''t1'' = Some t'"
    and b5: "distinct (map fst ?reqs) \<longrightarrow> map fst (tbl_columns t') = [''a1'', ''a2'', ''a3'']
         \<and> map (\<lambda>(c_id, col). col_order col) (tbl_columns t') = [0, 1, 2]"
    by (elim exE conjE)
  note b6 = b5 [rule_format, OF dist]
  have C: "\<exists>dbs' cols db' t'.
         create_columns (Some ''p'') ex_empty_dbs ''d1'' ''t1'' ?reqs = Inr (dbs', cols)
         \<and> map col_order cols = [0, 1, 2]
         \<and> map_of dbs' ''d1'' = Some db' \<and> map_of (db_tables db') ''t1'' = Some t'
         \<and> map fst (tbl_columns t') = [''a1'', ''a2'', ''a3'']
         \<and> map (\<lambda>(c_id, col). col_order col) (tbl_columns t') = [0, 1, 2]"
    by (rule exI [of _ dbs'], rule exI [of _ cols], rule exI [of _ db'], rule exI [of _ t'])
       (intro conjI b1 b2 b3 b4 b6 [THEN conjunct1] b6 [THEN conjunct2])
  show ?thesis
    by (intro conjI p d t A dist C)
qed

subsection \<open>Subtree resolution\<close>

lemma children_reached:
  assumes "x = root \<or> x \<in> descendants folders root"
    and "(fid, f) \<in> set folders" and "folder_parent_id f = JStr x"
  shows "fid \<in> descendants folders root"
  using assms by (auto intro: descendants.child descendants.above)

lemma closed_contains_descendants:
  assumes root: "root \<in> S"
    and closed: "\<And>y fid f. y \<in> S \<Longrightarrow> (fid, f) \<in> set folders \<Longrightarrow> folder_parent_id f = JStr y
                    \<Longrightarrow> fid \<in> S"
    and x: "x \<in> descendants folders root"
  shows "x \<in> S"
  using x
proof (induction rule: descendants.induct)
  case (child fid f)
  with root closed show ?case by blast
next
  case (above fid f p)
  with closed show ?case by blast
qed

lemma subtree_loop_correct:
  "subtree \<union> set pending \<subseteq> insert root (descendants folders root)
   \<Longrightarrow> root \<in> subtree \<union> set pending
   \<Longrightarrow> (\<And>y fid f. y \<in> subtree \<Longrightarrow> (fid, f) \<in> set folders \<Longrightarrow> folder_parent_id f = JStr y
          \<Longrightarrow> fid \<in> subtree \<union> set pending)
   \<Longrightarrow> subtree_loop folders subtree pending = insert root (descendants folders root)"
proof (induction folders subtree pending rule: subtree_loop.induct)
  case (1 folders subtree pending)
  show ?case
  proof (cases "pending = []")
    case True
    with "1.prems" have sub: "subtree \<subseteq> insert root (descendants folders root)"
      and r: "root \<in> subtree"
      and cl: "\<And>y fid f. y \<in> subtree \<Longrightarrow> (fid, f) \<in> set folders \<Longrightarrow> folder_parent_id f = JStr y
                 \<Longrightarrow> fid \<in> subtree"
      by auto
    have "x \<in> subtree" if "x \<in> descendants folders root" for x
    proof (rule closed_contains_descendants [OF r _ that])
      fix y fid f
      assume "y \<in> subtree" "(fid, f) \<in> set folders" "folder_parent_id f = JStr y"
      then show "fid \<in> subtree" by (rule cl)
    qed
    then have "descendants folders root \<subseteq> subtree" by blast
    with sub r have "subtree = insert root (descendants folders root)" by blast
    with True show ?thesis by (simp add: subtree_loop.simps)
  next
    case False
    define x where "x = last pending"
    define pending1 where "pending1 = butlast pending"
    define subtree1 where "subtree1 = insert x subtree"
    define pending2 where "pending2 = pending1 @
        map fst (filter (\<lambda>(fid, f). folder_parent_id f = JStr x \<and> fid \<notin> subtree1) folders)"
    from False have split: "pending = pending1 @ [x]" by (simp add: x_def pending1_def)
    from "1.prems"(1) have xr: "x = root \<or> x \<in> descendants folders root"
      by (auto simp: split)
    have a: "subtree1 \<union> set pending2 \<subseteq> insert root (descendants folders root)"
    proof
      fix y assume "y \<in> subtree1 \<union> set pending2"
      then consider "y \<in> subtree \<union> set pending"
        | f where "(y, f) \<in> set folders" "folder_parent_id f = JStr x"
        by (auto simp: subtree1_def pending2_def split)
      then show "y \<in> insert root (descendants folders root)"
      proof cases
        case 1
        with "1.prems"(1) show ?thesis by blast
      next
        case 2
        with children_reached [OF xr] show ?thesis by blast
      qed
    qed
    have b: "root \<in> subtree1 \<union> set pending2"
      using "1.prems"(2) by (auto simp: subtree1_def pending2_def split)
    have c: "fid \<in> subtree1 \<union> set pending2"
      if "y \<in> subtree1" "(fid, f) \<in> set folders" "folder_parent_id f = JStr y" for y fid f
    proof (cases "y = x")
      case True
      with that show ?thesis by (force simp: pending2_def)
    next
      case False
      with that have "y \<in> subtree" by (simp add: subtree1_def)
      from "1.prems"(3) [OF this that(2,3)] show ?thesis
        by (auto simp: subtree1_def pending2_def split)
    qed
    have "subtree_loop folders subtree1 pending2 = insert root (descendants folders root)"
      using False a b c
      by (intro "1.IH" [OF False x_def pending1_def subtree1_def pending2_def]) blast+
    moreover have "subtree_loop folders subtree pending = subtree_loop folders subtree1 pending2"
      using False
      by (subst subtree_loop.simps)
         (simp add: Let_def x_def pending1_def subtree1_def pending2_def)
    ultimately show ?thesis by simp
  qed
qed

lemma resolve_subtree_eq:
  "resolve_subtree folders root = insert root (descendants folders root)"
  unfolding resolve_subtree_def
  by (rule subtree_loop_correct) auto

text \<open>
  C9.  Subtree resolution is a total function (the loop is defined by well-founded
  recursion on every folder map, every visited set and every stack, a cyclic map
  included), and its result is the root together with every folder from which the chain
  of \<^verbatim>\<open>parent_id\<close>s reaches the root.
\<close>

theorem resolve_subtree_reaches_root:
  "resolve_subtree folders root = insert root (descendants folders root)
   \<and> (\<forall>x. x \<in> resolve_subtree folders root \<longleftrightarrow>
          x = root \<or> (\<exists>f p. (x, f) \<in> set folders \<and> folder_parent_id f = JStr p
                            \<and> p \<in> resolve_subtree folders root))"
proof -
  have eq: "resolve_subtree folders root = insert root (descendants folders root)"
    by (rule resolve_subtree_eq)
  have unf: "x \<in> descendants folders root \<longleftrightarrow>
      (\<exists>f p. (x, f) \<in> set folders \<and> folder_parent_id f = JStr p
          \<and> (p = root \<or> p \<in> descendants folders root))" for x
    by (subst descendants.simps) blast
  show ?thesis
  proof (intro conjI allI)
    show "resolve_subtree folders root = insert root (descendants folders root)" by (rule eq)
  next
    fix x
    show "x \<in> resolve_subtree folders root \<longleftrightarrow>
          x = root \<or> (\<exists>f p. (x, f) \<in> set folders \<and> folder_parent_id f = JStr p
                            \<and> p \<in> resolve_subtree folders root)"
      unfolding eq using unf [of x] by blast
  qed
qed

theorem resolve_subtree_reaches_root_witness:
  "resolve_subtree ex_cyclic_folders ''f1'' = insert ''f1'' (descendants ex_cyclic_folders ''f1'')
   \<and> resolve_subtree ex_cyclic_folders ''f1'' = {''f2'', ''f1''}"
proof -
  have A: "resolve_subtree ex_cyclic_folders ''f1'' = {''f2'', ''f1''}"
    by (simp add: resolve_subtree_def subtree_loop.simps ex_cyclic_folders_def)
  show ?thesis
    by (intro conjI resolve_subtree_reaches_root [of ex_cyclic_folders "''f1''", THEN conjunct1] A)
qed


subsection \<open>Share authorization\<close>








text \<open>
  The state of the counterexample is one that the store reaches: \<^verbatim>\<open>api_update_doc\<close> accepts
  the empty list as the new \<^verbatim>\<open>parent_id\<close> of a document, since the value is falsy, and
  stores it.
\<close>

lemma update_doc_stores_empty_list:
  "api_update_doc (Some ''p'') 7 ''k2'' (ex_load_docs ''p'') ex_move_req
     = Inr (ex_load_docs_moved ''p'')"
  by (simp add: api_update_doc_def ex_load_docs_def ex_load_docs_moved_def ex_move_req_def
      ex_documents_def ex_doc2_def ex_doc3_def no_pin_def missing_parent_def json_truthy_def
      Let_def)





subsection \<open>Deleting a folder\<close>

text \<open>
  C8, as the claim states it, fails: the check for child folders skips the folder that
  is deleted (\<^verbatim>\<open>if f.id != fid\<close>), so a folder that is its own parent is deleted although
  a folder, itself, has \<^verbatim>\<open>parent_id\<close> equal to the target.
\<close>

theorem delete_folder_self_parent_counterexample:
  "(''fx'', ex_self_folder) \<in> set [(''fx'', ex_self_folder)]
   \<and> folder_parent_id ex_self_folder = JStr ''fx''
   \<and> api_delete_folder (Some ''p'') ''fx'' ([(''fx'', ex_self_folder)], []) \<noteq> Inl InvalidInput
   \<and> api_delete_folder (Some ''p'') ''fx'' ([(''fx'', ex_self_folder)], []) = Inr ([], [])"
  by (simp add: api_delete_folder_def ex_self_folder_def no_pin_def)

text \<open>
  C8, amended.  Deleting a stored folder fails with InvalidInput, and the stored state is
  the one before, when a document has \<^verbatim>\<open>parent_id\<close> equal to the target or a folder other
  than the target itself has; otherwise it succeeds, removes the target and leaves every
  other folder and every document as it was.
\<close>

theorem delete_folder_guard:
  assumes "\<not> no_pin pin" and "map_of folders fid = Some f"
  shows "((\<exists>d \<in> snd ` set documents. doc_parent_id d = JStr fid)
          \<or> (\<exists>g \<in> snd ` set folders. folder_id g \<noteq> fid \<and> folder_parent_id g = JStr fid)
          \<longrightarrow> api_delete_folder pin fid (folders, documents) = Inl InvalidInput
            \<and> stored (folders, documents) (api_delete_folder pin fid (folders, documents))
                = (folders, documents))
       \<and> (\<not> ((\<exists>d \<in> snd ` set documents. doc_parent_id d = JStr fid)
             \<or> (\<exists>g \<in> snd ` set folders. folder_id g \<noteq> fid \<and> folder_parent_id g = JStr fid))
          \<longrightarrow> (\<exists>folders'. api_delete_folder pin fid (folders, documents) = Inr (folders', documents)
                 \<and> map_of folders' fid = None
                 \<and> set folders' = {p \<in> set folders. fst p \<noteq> fid}
                 \<and> (\<forall>k. k \<noteq> fid \<longrightarrow> map_of folders' k = map_of folders k)))"
proof (intro conjI impI)
  assume "(\<exists>d \<in> snd ` set documents. doc_parent_id d = JStr fid)
          \<or> (\<exists>g \<in> snd ` set folders. folder_id g \<noteq> fid \<and> folder_parent_id g = JStr fid)"
  then have "(\<exists>d \<in> set (map snd documents). doc_parent_id d = JStr fid)
                \<or> (\<exists>g \<in> set (filter (\<lambda>f. folder_id f \<noteq> fid) (map snd folders)).
                      folder_parent_id g = JStr fid)"
    by auto
  with assms show "api_delete_folder pin fid (folders, documents) = Inl InvalidInput"
    by (simp add: api_delete_folder_def del: set_map set_filter)
  then show "stored (folders, documents) (api_delete_folder pin fid (folders, documents))
                = (folders, documents)"
    by (simp add: stored_def)
next
  assume "\<not> ((\<exists>d \<in> snd ` set documents. doc_parent_id d = JStr fid)
             \<or> (\<exists>g \<in> snd ` set folders. folder_id g \<noteq> fid \<and> folder_parent_id g = JStr fid))"
  then have "\<not> ((\<exists>d \<in> set (map snd documents). doc_parent_id d = JStr fid)
                \<or> (\<exists>g \<in> set (filter (\<lambda>f. folder_id f \<noteq> fid) (map snd folders)).
                      folder_parent_id g = JStr fid))"
    by auto
  with assms have "api_delete_folder pin fid (folders, documents)
      = Inr (AList.delete fid folders, documents)"
    by (simp add: api_delete_folder_def del: set_map set_filter)
  moreover have "map_of (AList.delete fid folders) fid = None"
    by (simp add: delete_conv')
  moreover have "set (AList.delete fid folders) = {p \<in> set folders. fst p \<noteq> fid}"
    by (rule set_delete)
  moreover have "\<forall>k. k \<noteq> fid \<longrightarrow> map_of (AList.delete fid folders) k = map_of folders k"
    by (simp add: delete_conv')
  ultimately show "\<exists>folders'. api_delete_folder pin fid (folders, documents) = Inr (folders', documents)
                 \<and> map_of folders' fid = None
                 \<and> set folders' = {p \<in> set folders. fst p \<noteq> fid}
                 \<and> (\<forall>k. k \<noteq> fid \<longrightarrow> map_of folders' k = map_of folders k)"
    by blast
qed

theorem delete_folder_guard_witness:
  "\<not> no_pin (Some ''p'')
   \<and> map_of ex_folders ''fa'' = Some \<lparr>folder_id = ''fa'', folder_name = ''A'', folder_parent_id = JNull\<rparr>
   \<and> ((\<exists>d \<in> snd ` set ex_documents. doc_parent_id d = JStr ''fa'')
       \<or> (\<exists>g \<in> snd ` set ex_folders. folder_id g \<noteq> ''fa'' \<and> folder_parent_id g = JStr ''fa''))
   \<and> api_delete_folder (Some ''p'') ''fa'' (ex_folders, ex_documents) = Inl InvalidInput
   \<and> map_of ex_folders ''fb''
       = Some \<lparr>folder_id = ''fb'', folder_name = ''B'', folder_parent_id = JStr ''fa''\<rparr>
   \<and> \<not> ((\<exists>d \<in> snd ` set ([] :: Document dict). doc_parent_id d = JStr ''fb'')
       \<or> (\<exists>g \<in> snd ` set ex_folders. folder_id g \<noteq> ''fb'' \<and> folder_parent_id g = JStr ''fb''))
   \<and> (\<exists>folders'. api_delete_folder (Some ''p'') ''fb'' (ex_folders, []) = Inr (folders', [])
         \<and> map_of folders' ''fb'' = None
         \<and> set folders' = {p \<in> set ex_folders. fst p \<noteq> ''fb''}
         \<and> (\<forall>k. k \<noteq> ''fb'' \<longrightarrow> map_of folders' k = map_of ex_folders k))"
proof -
  have p: "\<not> no_pin (Some ''p'')" by (simp add: no_pin_def)
  have a: "map_of ex_folders ''fa''
      = Some \<lparr>folder_id = ''fa'', folder_name = ''A'', folder_parent_id = JNull\<rparr>"
    by (simp add: ex_folders_def)
  have b: "map_of ex_folders ''fb''
      = Some \<lparr>folder_id = ''fb'', folder_name = ''B'', folder_parent_id = JStr ''fa''\<rparr>"
    by (simp add: ex_folders_def)
  have full: "(\<exists>d \<in> snd ` set ex_documents. doc_parent_id d = JStr ''fa'')
       \<or> (\<exists>g \<in> snd ` set ex_folders. folder_id g \<noteq> ''fa'' \<and> folder_parent_id g = JStr ''fa'')"
    by (simp add: ex_folders_def)
  have empty: "\<not> ((\<exists>d \<in> snd ` set ([] :: Document dict). doc_parent_id d = JStr ''fb'')
       \<or> (\<exists>g \<in> snd ` set ex_folders. folder_id g \<noteq> ''fb'' \<and> folder_parent_id g = JStr ''fb''))"
    by (simp add: ex_folders_def)
  note A = delete_folder_guard [OF p a, of ex_documents, THEN conjunct1, rule_format, OF full,
      THEN conjunct1]
  note B = delete_folder_guard [OF p b, of "[]", THEN conjunct2, rule_format, OF empty]
  show ?thesis
    by (intro conjI p a full A b empty B)
qed


subsection \<open>Cycles in the folder tree\<close>

text \<open>
  C5, as the claim states it, fails: \<^verbatim>\<open>api_update_folder\<close> only checks that the new parent
  exists.  A folder can be made its own parent, and a folder can be moved below one of
  its descendants; both requests are accepted and leave a cycle.
\<close>

theorem folder_update_cycle_counterexample:
  "run_folder_ops (Some ''p'') ([], [])
     [CreateFolder ''f1'' \<lparr>fq_name = Some (JStr ''A''), fq_parent_id = None\<rparr>,
      UpdateFolder ''f1'' \<lparr>fq_name = None, fq_parent_id = Some (JStr ''f1'')\<rparr>]
   = Inr ([(''f1'', \<lparr>folder_id = ''f1'', folder_name = ''A'', folder_parent_id = JStr ''f1''\<rparr>)], [])
   \<and> ''f1'' \<in> descendants
        [(''f1'', \<lparr>folder_id = ''f1'', folder_name = ''A'', folder_parent_id = JStr ''f1''\<rparr>)] ''f1''
   \<and> run_folder_ops (Some ''p'') ([], [])
     [CreateFolder ''f1'' \<lparr>fq_name = Some (JStr ''A''), fq_parent_id = None\<rparr>,
      CreateFolder ''f2'' \<lparr>fq_name = Some (JStr ''B''), fq_parent_id = Some (JStr ''f1'')\<rparr>,
      UpdateFolder ''f1'' \<lparr>fq_name = None, fq_parent_id = Some (JStr ''f2'')\<rparr>]
   = Inr ([(''f1'', \<lparr>folder_id = ''f1'', folder_name = ''A'', folder_parent_id = JStr ''f2''\<rparr>),
           (''f2'', \<lparr>folder_id = ''f2'', folder_name = ''B'', folder_parent_id = JStr ''f1''\<rparr>)], [])
   \<and> ''f1'' \<in> descendants
        [(''f1'', \<lparr>folder_id = ''f1'', folder_name = ''A'', folder_parent_id = JStr ''f2''\<rparr>),
         (''f2'', \<lparr>folder_id = ''f2'', folder_name = ''B'', folder_parent_id = JStr ''f1''\<rparr>)] ''f1''"
proof (intro conjI)
  show "run_folder_ops (Some ''p'') ([], [])
     [CreateFolder ''f1'' \<lparr>fq_name = Some (JStr ''A''), fq_parent_id = None\<rparr>,
      UpdateFolder ''f1'' \<lparr>fq_name = None, fq_parent_id = Some (JStr ''f1'')\<rparr>]
   = Inr ([(''f1'', \<lparr>folder_id = ''f1'', folder_name = ''A'', folder_parent_id = JStr ''f1''\<rparr>)], [])"
    by (simp add: api_create_folder_def api_update_folder_def no_pin_def or_else_def strip_def
        is_space_def json_strip_def json_or_def json_truthy_def missing_parent_def dict_get_def)
  show "''f1'' \<in> descendants
        [(''f1'', \<lparr>folder_id = ''f1'', folder_name = ''A'', folder_parent_id = JStr ''f1''\<rparr>)] ''f1''"
    by (rule descendants.child
          [where f = "\<lparr>folder_id = ''f1'', folder_name = ''A'', folder_parent_id = JStr ''f1''\<rparr>"])
       simp_all
  show "run_folder_ops (Some ''p'') ([], [])
     [CreateFolder ''f1'' \<lparr>fq_name = Some (JStr ''A''), fq_parent_id = None\<rparr>,
      CreateFolder ''f2'' \<lparr>fq_name = Some (JStr ''B''), fq_parent_id = Some (JStr ''f1'')\<rparr>,
      UpdateFolder ''f1'' \<lparr>fq_name = None, fq_parent_id = Some (JStr ''f2'')\<rparr>]
   = Inr ([(''f1'', \<lparr>folder_id = ''f1'', folder_name = ''A'', folder_parent_id = JStr ''f2''\<rparr>),
           (''f2'', \<lparr>folder_id = ''f2'', folder_name = ''B'', folder_parent_id = JStr ''f1''\<rparr>)], [])"
    by (simp add: api_create_folder_def api_update_folder_def no_pin_def or_else_def strip_def
        is_space_def json_strip_def json_or_def json_truthy_def missing_parent_def dict_get_def)
  have "''f2'' \<in> descendants
        [(''f1'', \<lparr>folder_id = ''f1'', folder_name = ''A'', folder_parent_id = JStr ''f2''\<rparr>),
         (''f2'', \<lparr>folder_id = ''f2'', folder_name = ''B'', folder_parent_id = JStr ''f1''\<rparr>)] ''f1''"
    by (rule descendants.child
          [where f = "\<lparr>folder_id = ''f2'', folder_name = ''B'', folder_parent_id = JStr ''f1''\<rparr>"])
       simp_all
  then show "''f1'' \<in> descendants
        [(''f1'', \<lparr>folder_id = ''f1'', folder_name = ''A'', folder_parent_id = JStr ''f2''\<rparr>),
         (''f2'', \<lparr>folder_id = ''f2'', folder_name = ''B'', folder_parent_id = JStr ''f1''\<rparr>)] ''f1''"
    by (rule descendants.above [rotated 2,
          where f = "\<lparr>folder_id = ''f1'', folder_name = ''A'', folder_parent_id = JStr ''f2''\<rparr>"])
       simp_all
qed

lemma json_or_null_string:
  "json_or a JNull = JStr p \<Longrightarrow> p \<noteq> []"
  by (auto simp: json_or_def json_truthy_def split: option.splits if_splits)

lemma create_folder_result:
  assumes "api_create_folder pin fid (folders, documents) data = Inr st'"
  shows "\<exists>nf. st' = (AList.update fid nf folders, documents)
            \<and> (\<forall>p. folder_parent_id nf = JStr p \<longrightarrow> p \<in> fst ` set folders)"
proof -
  define parent_id where "parent_id = json_or (fq_parent_id data) JNull"
  from assms obtain stripped where
    m: "missing_parent folders parent_id = Inr False"
    and res: "st' = (AList.update fid
        \<lparr>folder_id = fid, folder_name = or_else (Some stripped) ''New Folder'',
          folder_parent_id = parent_id\<rparr> folders, documents)"
    by (auto simp: api_create_folder_def Let_def parent_id_def split: if_splits sum.splits)
  have "p \<in> fst ` set folders" if "parent_id = JStr p" for p
  proof -
    from that have "p \<noteq> []" unfolding parent_id_def by (rule json_or_null_string)
    with m that have "map_of folders p \<noteq> None"
      by (simp add: missing_parent_def json_truthy_def dict_get_def)
    then show ?thesis by (simp add: map_of_eq_None_iff)
  qed
  then have "\<forall>p. folder_parent_id \<lparr>folder_id = fid,
      folder_name = or_else (Some stripped) ''New Folder'',
      folder_parent_id = parent_id\<rparr> = JStr p \<longrightarrow> p \<in> fst ` set folders"
    by simp
  with res show ?thesis by (intro exI conjI)
qed

lemma leaf_keeps_tree:
  assumes nc: "\<not> has_cycle folders" and pe: "parents_exist folders"
    and fresh: "fid \<notin> fst ` set folders"
    and par: "\<And>p. folder_parent_id nf = JStr p \<Longrightarrow> p \<in> fst ` set folders"
  shows "\<not> has_cycle (folders @ [(fid, nf)]) \<and> parents_exist (folders @ [(fid, nf)])"
proof
  let ?new = "folders @ [(fid, nf)]"
  have old_parent: "p \<in> fst ` set folders"
    if "(y, f) \<in> set ?new" "folder_parent_id f = JStr p" for y f p
  proof (cases "(y, f) = (fid, nf)")
    case True
    with that par show ?thesis by simp
  next
    case False
    with that have "(y, f) \<in> set folders" by auto
    with pe that(2) show ?thesis by (force simp: parents_exist_def)
  qed
  have below_new: "y \<notin> descendants ?new fid" for y
  proof
    assume "y \<in> descendants ?new fid"
    then show False
    proof (induction rule: descendants.induct)
      case (child y f)
      from old_parent [OF child] fresh show ?case by simp
    next
      case (above y f p)
      then show ?case by simp
    qed
  qed
  have old_chain: "y \<in> descendants folders r"
    if "y \<in> descendants ?new r" "y \<noteq> fid" for y r
    using that
  proof (induction rule: descendants.induct)
    case (child y f)
    then have "(y, f) \<in> set folders" by auto
    with child show ?case by (auto intro: descendants.child)
  next
    case (above y f p)
    then have mem: "(y, f) \<in> set folders" by auto
    from old_parent [OF above(1,2)] fresh have "p \<noteq> fid" by auto
    with above have "p \<in> descendants folders r" by simp
    with mem above(2) show ?case by (rule descendants.above)
  qed
  show "\<not> has_cycle ?new"
  proof
    assume "has_cycle ?new"
    then obtain x where x: "x \<in> descendants ?new x" by (auto simp: has_cycle_def)
    show False
    proof (cases "x = fid")
      case True
      with x below_new show False by simp
    next
      case False
      with x have "x \<in> descendants folders x" by (rule old_chain)
      with nc show False by (auto simp: has_cycle_def)
    qed
  qed
  show "parents_exist ?new"
    unfolding parents_exist_def using old_parent by fastforce
qed

lemma create_folder_keeps_tree:
  assumes "\<not> has_cycle folders" and "parents_exist folders" and "fid \<notin> fst ` set folders"
    and "api_create_folder pin fid (folders, documents) data = Inr (folders', documents')"
  shows "\<not> has_cycle folders' \<and> parents_exist folders' \<and> fst ` set folders' = insert fid (fst ` set folders)"
proof -
  from create_folder_result [OF assms(4)]
  obtain nf where f': "folders' = AList.update fid nf folders"
    and par: "\<forall>p. folder_parent_id nf = JStr p \<longrightarrow> p \<in> fst ` set folders"
    by auto
  from assms(3) have app: "folders' = folders @ [(fid, nf)]"
    by (simp add: f' update_fresh)
  from leaf_keeps_tree [OF assms(1-3), of nf] par
  have "\<not> has_cycle (folders @ [(fid, nf)]) \<and> parents_exist (folders @ [(fid, nf)])"
    by blast
  then show ?thesis by (auto simp: app)
qed

lemma create_folders_keep_tree:
  "\<not> has_cycle folders \<Longrightarrow> parents_exist folders \<Longrightarrow> distinct (map fst reqs)
   \<Longrightarrow> set (map fst reqs) \<inter> fst ` set folders = {}
   \<Longrightarrow> run_folder_ops pin (folders, documents) (map (\<lambda>(fid, data). CreateFolder fid data) reqs)
         = Inr (folders', documents')
   \<Longrightarrow> \<not> has_cycle folders' \<and> parents_exist folders'"
proof (induction reqs arbitrary: folders documents)
  case Nil
  then show ?case by simp
next
  case (Cons r rs)
  obtain fid data where r: "r = (fid, data)" by (cases r)
  from Cons.prems(5) obtain st1 where
    step: "api_create_folder pin fid (folders, documents) data = Inr st1"
    and run: "run_folder_ops pin st1 (map (\<lambda>(fid, data). CreateFolder fid data) rs)
         = Inr (folders', documents')"
    by (auto simp: r split: sum.splits)
  obtain folders1 documents1 where st1: "st1 = (folders1, documents1)" by (cases st1)
  from Cons.prems(4) have fresh: "fid \<notin> fst ` set folders" by (auto simp: r)
  from create_folder_keeps_tree [OF Cons.prems(1,2) fresh step [unfolded st1]]
  have nc1: "\<not> has_cycle folders1" and pe1: "parents_exist folders1"
    and keys1: "fst ` set folders1 = insert fid (fst ` set folders)"
    by blast+
  from Cons.prems(3,4) have d: "distinct (map fst rs)"
    and disj: "set (map fst rs) \<inter> fst ` set folders1 = {}"
    by (auto simp: r keys1)
  from Cons.IH [OF nc1 pe1 d disj run [unfolded st1]] show ?case .
qed

text \<open>
  C5, amended.  A run of accepted folder creations keeps the tree free of cycles: when
  it starts from a tree without a cycle in which every \<^verbatim>\<open>parent_id\<close> that is a string names
  a stored folder (the empty store is one) and the generated identifiers are new and
  pairwise different, then in the tree it leaves no chain of \<^verbatim>\<open>parent_id\<close>s returns to the
  folder it started from, whatever JSON values the requests carry.  Updates are left
  out: the runs above show accepted updates that close a cycle.
\<close>

theorem create_folders_no_cycle:
  "\<not> has_cycle folders \<longrightarrow> parents_exist folders \<longrightarrow> distinct (map fst reqs)
      \<longrightarrow> set (map fst reqs) \<inter> fst ` set folders = {}
      \<longrightarrow> run_folder_ops pin (folders, documents) (map (\<lambda>(fid, data). CreateFolder fid data) reqs)
            = Inr (folders', documents')
      \<longrightarrow> \<not> has_cycle folders' \<and> parents_exist folders'"
  using create_folders_keep_tree [of folders reqs pin documents folders' documents']
  by blast

theorem create_folders_no_cycle_witness:
  "\<not> has_cycle [] \<and> parents_exist []
   \<and> distinct (map fst [(''f1'', \<lparr>fq_name = Some (JStr ''A''), fq_parent_id = None\<rparr>),
                         (''f2'', \<lparr>fq_name = Some (JStr ''B''), fq_parent_id = Some (JStr ''f1'')\<rparr>)])
   \<and> run_folder_ops (Some ''p'') ([], [])
        (map (\<lambda>(fid, data). CreateFolder fid data)
           [(''f1'', \<lparr>fq_name = Some (JStr ''A''), fq_parent_id = None\<rparr>),
            (''f2'', \<lparr>fq_name = Some (JStr ''B''), fq_parent_id = Some (JStr ''f1'')\<rparr>)])
      = Inr ([(''f1'', \<lparr>folder_id = ''f1'', folder_name = ''A'', folder_parent_id = JNull\<rparr>),
              (''f2'', \<lparr>folder_id = ''f2'', folder_name = ''B'', folder_parent_id = JStr ''f1''\<rparr>)], [])
   \<and> \<not> has_cycle [(''f1'', \<lparr>folder_id = ''f1'', folder_name = ''A'', folder_parent_id = JNull\<rparr>),
              (''f2'', \<lparr>folder_id = ''f2'', folder_name = ''B'', folder_parent_id = JStr ''f1''\<rparr>)]
   \<and> parents_exist [(''f1'', \<lparr>folder_id = ''f1'', folder_name = ''A'', folder_parent_id = JNull\<rparr>),
              (''f2'', \<lparr>folder_id = ''f2'', folder_name = ''B'', folder_parent_id = JStr ''f1''\<rparr>)]"
proof -
  let ?reqs = "[(''f1'', \<lparr>fq_name = Some (JStr ''A''), fq_parent_id = None\<rparr>),
                (''f2'', \<lparr>fq_name = Some (JStr ''B''), fq_parent_id = Some (JStr ''f1'')\<rparr>)]"
  let ?res = "[(''f1'', \<lparr>folder_id = ''f1'', folder_name = ''A'', folder_parent_id = JNull\<rparr>),
              (''f2'', \<lparr>folder_id = ''f2'', folder_name = ''B'', folder_parent_id = JStr ''f1''\<rparr>)]"
  have "x \<notin> descendants ([] :: DocFolder dict) r" for x r
    by (auto elim: descendants.cases)
  then have nc: "\<not> has_cycle []" by (simp add: has_cycle_def)
  have pe: "parents_exist []" by (simp add: parents_exist_def)
  have d: "distinct (map fst ?reqs)" by simp
  have disj: "set (map fst ?reqs) \<inter> fst ` set ([] :: DocFolder dict) = {}" by simp
  have run: "run_folder_ops (Some ''p'') ([], []) (map (\<lambda>(fid, data). CreateFolder fid data) ?reqs)
      = Inr (?res, [])"
    by (simp add: api_create_folder_def no_pin_def or_else_def strip_def is_space_def
        json_strip_def json_or_def json_truthy_def missing_parent_def dict_get_def)
  note T = create_folders_no_cycle [of "[]" ?reqs "Some ''p''" "[]" ?res "[]",
      rule_format, OF nc pe d disj run]
  show ?thesis
    by (intro conjI nc pe d run T [THEN conjunct1] T [THEN conjunct2])
qed


subsection \<open>Duplication: the two passes and the copy they build\<close>

lemma map_entry_here:
  "k \<notin> fst ` set X \<Longrightarrow> AList.map_entry k f (X @ (k, v) # Y) = X @ (k, f v) # Y"
  by (induction X) auto

lemma update_here:
  "k \<notin> fst ` set X \<Longrightarrow> AList.update k v' (X @ (k, v) # Y) = X @ (k, v') # Y"
  by (induction X) auto

lemma map_of_here:
  "k \<notin> fst ` set X \<Longrightarrow> map_of (X @ (k, v) # Y) k = Some v"
  by (induction X) auto

lemma copy_cost_Cons:
  "copy_cost ((t_id, t) # ts) = Suc (length (tbl_columns t)) + copy_cost ts"
  by (simp add: copy_cost_def)

lemma copy_cost_Nil: "copy_cost [] = 0"
  by (simp add: copy_cost_def)

lemma copy_column_fields:
  "ds_next (copy_column g tn st (c_old_id, c)) = Suc (ds_next st)"
  "ds_table_id_map (copy_column g tn st (c_old_id, c)) = ds_table_id_map st"
  "ds_col_id_map (copy_column g tn st (c_old_id, c)) = AList.update c_old_id (g (ds_next st)) (ds_col_id_map st)"
  "ds_pending_refs (copy_column g tn st (c_old_id, c))
     = ds_pending_refs st @ (case col_foreign_ref c of None \<Rightarrow> [] | Some fr \<Rightarrow> [(tn, g (ds_next st), fr)])"
  "ds_tables (copy_column g tn st (c_old_id, c))
     = AList.map_entry tn (\<lambda>new_table. new_table\<lparr>tbl_columns :=
          AList.update (g (ds_next st))
            \<lparr>col_id = g (ds_next st), col_name = col_name c, col_datatype = col_datatype c,
              col_is_primary = col_is_primary c, col_is_nullable = col_is_nullable c,
              col_default = col_default c, col_note = col_note c,
              col_foreign_ref = None, col_order = 0\<rparr> (tbl_columns new_table)\<rparr>) (ds_tables st)"
  by (simp_all add: copy_column_def Let_def split: option.splits)

lemma fold_copy_column_fields:
  "ds_next (foldl (copy_column g tn) st cs) = ds_next st + length cs
   \<and> ds_table_id_map (foldl (copy_column g tn) st cs) = ds_table_id_map st
   \<and> ds_col_id_map (foldl (copy_column g tn) st cs) = cols_map g (ds_next st) cs (ds_col_id_map st)
   \<and> ds_pending_refs (foldl (copy_column g tn) st cs)
       = ds_pending_refs st @ cols_pending g tn (ds_next st) cs"
proof (induction cs arbitrary: st)
  case Nil
  show ?case by simp
next
  case (Cons oc cs)
  obtain c_old_id c where oc: "oc = (c_old_id, c)" by (cases oc)
  show ?case
    unfolding oc using Cons.IH [of "copy_column g tn st (c_old_id, c)"]
    by (simp add: copy_column_fields)
qed

lemma fold_copy_column_tables:
  "ds_tables st = X @ (tn, tb) # Y \<Longrightarrow> tn \<notin> fst ` set X
   \<Longrightarrow> (\<And>k. ds_next st \<le> k \<Longrightarrow> k < ds_next st + length cs \<Longrightarrow> g k \<notin> fst ` set (tbl_columns tb))
   \<Longrightarrow> inj_on g {ds_next st..<ds_next st + length cs}
   \<Longrightarrow> ds_tables (foldl (copy_column g tn) st cs)
       = X @ (tn, tb\<lparr>tbl_columns := tbl_columns tb @ copy_cols_of (\<lambda>fr. None) g (ds_next st) cs\<rparr>) # Y"
proof (induction cs arbitrary: st tb)
  case Nil
  then show ?case by simp
next
  case (Cons oc cs)
  obtain c_old_id c where oc: "oc = (c_old_id, c)" by (cases oc)
  let ?n = "ds_next st"
  let ?col = "\<lparr>col_id = g ?n, col_name = col_name c, col_datatype = col_datatype c,
              col_is_primary = col_is_primary c, col_is_nullable = col_is_nullable c,
              col_default = col_default c, col_note = col_note c,
              col_foreign_ref = None, col_order = 0\<rparr>"
  let ?st' = "copy_column g tn st (c_old_id, c)"
  let ?tb' = "tb\<lparr>tbl_columns := tbl_columns tb @ [(g ?n, ?col)]\<rparr>"
  have fresh: "g ?n \<notin> fst ` set (tbl_columns tb)"
    by (rule Cons.prems(3)) simp_all
  have tabs: "ds_tables ?st' = X @ (tn, ?tb') # Y"
    using Cons.prems(1,2) fresh
    by (simp add: copy_column_fields map_entry_here update_fresh)
  have nxt: "ds_next ?st' = Suc ?n" by (simp add: copy_column_fields)
  have fresh': "g k \<notin> fst ` set (tbl_columns ?tb')"
    if "ds_next ?st' \<le> k" "k < ds_next ?st' + length cs" for k
  proof -
    from that have r: "?n \<le> k" "k < ?n + length (oc # cs)" "k \<noteq> ?n" by (simp_all add: nxt)
    from Cons.prems(3) [OF r(1,2)] have a: "g k \<notin> fst ` set (tbl_columns tb)" .
    from Cons.prems(4) r have "g k \<noteq> g ?n"
      by (auto simp: inj_on_def)
    with a show ?thesis by simp
  qed
  have inj': "inj_on g {ds_next ?st'..<ds_next ?st' + length cs}"
    by (rule inj_on_subset [OF Cons.prems(4)]) (auto simp: nxt)
  from Cons.IH [OF tabs Cons.prems(2) fresh' inj']
  show ?case by (simp add: oc nxt split: option.split)
qed

lemma fold_copy_table:
  "inj_on g {ds_next st..<ds_next st + copy_cost ts}
   \<Longrightarrow> (\<And>k. ds_next st \<le> k \<Longrightarrow> k < ds_next st + copy_cost ts \<Longrightarrow> g k \<notin> fst ` set (ds_tables st))
   \<Longrightarrow> ds_next (foldl (copy_table g) st ts) = ds_next st + copy_cost ts
     \<and> ds_tables (foldl (copy_table g) st ts)
         = ds_tables st @ copy_tables_of (\<lambda>fr. None) g (ds_next st) ts
     \<and> ds_table_id_map (foldl (copy_table g) st ts)
         = tables_tmap g (ds_next st) ts (ds_table_id_map st)
     \<and> ds_col_id_map (foldl (copy_table g) st ts)
         = tables_cmap g (ds_next st) ts (ds_col_id_map st)
     \<and> ds_pending_refs (foldl (copy_table g) st ts)
         = ds_pending_refs st @ tables_pending g (ds_next st) ts"
proof (induction ts arbitrary: st)
  case Nil
  show ?case by (simp add: copy_cost_Nil)
next
  case (Cons ot ts)
  obtain t_old_id t where ot: "ot = (t_old_id, t)" by (cases ot)
  let ?n = "ds_next st"
  let ?cs = "tbl_columns t"
  let ?new_table = "\<lparr>tbl_id = g ?n, tbl_name = tbl_name t, tbl_note = tbl_note t, tbl_columns = []\<rparr>"
  define st1 where "st1 = st\<lparr>ds_next := Suc ?n,
      ds_table_id_map := AList.update t_old_id (g ?n) (ds_table_id_map st),
      ds_tables := AList.update (g ?n) ?new_table (ds_tables st)\<rparr>"
  define st2 where "st2 = foldl (copy_column g (g ?n)) st1 ?cs"
  have step: "copy_table g st (t_old_id, t) = st2"
    by (simp add: copy_table_def Let_def st1_def st2_def)
  have cost: "copy_cost (ot # ts) = Suc (length ?cs) + copy_cost ts"
    by (simp add: ot copy_cost_Cons)
  have fresh_t: "g ?n \<notin> fst ` set (ds_tables st)"
    by (rule Cons.prems(2)) (simp_all add: cost)
  have n1: "ds_next st1 = Suc ?n" by (simp add: st1_def)
  have tabs1: "ds_tables st1 = ds_tables st @ (g ?n, ?new_table) # []"
    using fresh_t by (simp add: st1_def update_fresh)
  have inj1: "inj_on g {ds_next st1..<ds_next st1 + length ?cs}"
    by (rule inj_on_subset [OF Cons.prems(1)]) (auto simp: n1 cost)
  have "ds_tables st2 = ds_tables st @ (g ?n, ?new_table\<lparr>tbl_columns :=
      tbl_columns ?new_table @ copy_cols_of (\<lambda>fr. None) g (ds_next st1) ?cs\<rparr>) # []"
    unfolding st2_def
    by (rule fold_copy_column_tables [OF tabs1 fresh_t _ inj1]) simp
  then have tabs2: "ds_tables st2 = ds_tables st
      @ [(g ?n, \<lparr>tbl_id = g ?n, tbl_name = tbl_name t, tbl_note = tbl_note t,
                  tbl_columns = copy_cols_of (\<lambda>fr. None) g (Suc ?n) ?cs\<rparr>)]"
    by (simp add: n1)
  from fold_copy_column_fields [of g "g ?n" st1 ?cs]
  have n2: "ds_next st2 = Suc ?n + length ?cs"
    and tm2: "ds_table_id_map st2 = AList.update t_old_id (g ?n) (ds_table_id_map st)"
    and cm2: "ds_col_id_map st2 = cols_map g (Suc ?n) ?cs (ds_col_id_map st)"
    and pd2: "ds_pending_refs st2 = ds_pending_refs st @ cols_pending g (g ?n) (Suc ?n) ?cs"
    by (simp_all add: st2_def [symmetric] n1) (simp_all add: st1_def)
  have inj2: "inj_on g {ds_next st2..<ds_next st2 + copy_cost ts}"
    by (rule inj_on_subset [OF Cons.prems(1)]) (auto simp: n2 cost)
  have fresh2: "g k \<notin> fst ` set (ds_tables st2)"
    if "ds_next st2 \<le> k" "k < ds_next st2 + copy_cost ts" for k
  proof -
    from that have r: "?n \<le> k" "k < ?n + copy_cost (ot # ts)" "k \<noteq> ?n"
      by (simp_all add: n2 cost)
    from Cons.prems(2) [OF r(1,2)] have a: "g k \<notin> fst ` set (ds_tables st)" .
    from Cons.prems(1) r have "g k \<noteq> g ?n" by (auto simp: inj_on_def cost)
    with a show ?thesis by (simp add: tabs2)
  qed
  from Cons.IH [OF inj2 fresh2]
  have IH: "ds_next (foldl (copy_table g) st2 ts) = ds_next st2 + copy_cost ts"
    "ds_tables (foldl (copy_table g) st2 ts)
         = ds_tables st2 @ copy_tables_of (\<lambda>fr. None) g (ds_next st2) ts"
    "ds_table_id_map (foldl (copy_table g) st2 ts)
         = tables_tmap g (ds_next st2) ts (ds_table_id_map st2)"
    "ds_col_id_map (foldl (copy_table g) st2 ts)
         = tables_cmap g (ds_next st2) ts (ds_col_id_map st2)"
    "ds_pending_refs (foldl (copy_table g) st2 ts)
         = ds_pending_refs st2 @ tables_pending g (ds_next st2) ts"
    by blast+
  have f: "foldl (copy_table g) st (ot # ts) = foldl (copy_table g) st2 ts"
    by (simp add: ot step)
  show ?case
    unfolding f IH n2 tabs2 tm2 cm2 pd2 by (simp add: ot copy_cost_Cons)
qed

lemma dict_get_hashable: "hashable k \<Longrightarrow> dict_get m k = Inr (lookup m k)"
  by (cases k) (simp_all add: dict_get_def lookup_def hashable_def)

lemma dict_get_unhashable: "\<not> hashable k \<Longrightarrow> dict_get m k = Inl TypeError"
  by (cases k) (simp_all add: dict_get_def hashable_def)

lemma cols_hashable_Cons:
  "cols_hashable ((c_id, c) # cs) \<longleftrightarrow>
     (\<forall>fr. col_foreign_ref c = Some fr \<longrightarrow> hashable (fr_table_id fr) \<and> hashable (fr_column_id fr))
     \<and> cols_hashable cs"
  by (simp add: cols_hashable_def)

lemma refs_hashable_Cons:
  "refs_hashable ((t_id, t) # ts) \<longleftrightarrow> cols_hashable (tbl_columns t) \<and> refs_hashable ts"
  by (simp add: refs_hashable_def)

lemma links_hashable_Cons:
  "links_hashable ((l_id, l) # ls) \<longleftrightarrow>
     (link_from_type l \<in> {''table'', ''column''} \<longrightarrow> hashable (link_from_id l))
     \<and> (link_to_type l \<in> {''table'', ''column''} \<longrightarrow> hashable (link_to_id l))
     \<and> links_hashable ls"
  by (simp add: links_hashable_def)

lemma resolve_refs_skip:
  "hashable (fr_table_id fr) \<Longrightarrow> hashable (fr_column_id fr)
   \<Longrightarrow> \<not> (truthy (lookup tm (fr_table_id fr)) \<and> truthy (lookup cm (fr_column_id fr)))
   \<Longrightarrow> resolve_refs tm cm ((t_new_id, c_new_id, fr) # rest) tables = resolve_refs tm cm rest tables"
  by (auto simp: dict_get_hashable)

lemma resolve_refs_hit:
  "hashable (fr_table_id fr) \<Longrightarrow> hashable (fr_column_id fr)
   \<Longrightarrow> truthy (lookup tm (fr_table_id fr)) \<Longrightarrow> truthy (lookup cm (fr_column_id fr))
   \<Longrightarrow> map_of tables t_new_id = Some t \<Longrightarrow> map_of (tbl_columns t) c_new_id = Some c
   \<Longrightarrow> resolve_refs tm cm ((t_new_id, c_new_id, fr) # rest) tables
       = resolve_refs tm cm rest
           (AList.update t_new_id
              (t\<lparr>tbl_columns := AList.update c_new_id
                   (c\<lparr>col_foreign_ref := Some \<lparr>fr_table_id = JStr (the (lookup tm (fr_table_id fr))),
                         fr_column_id = JStr (the (lookup cm (fr_column_id fr))),
                         fr_note = fr_note fr\<rparr>\<rparr>)
                   (tbl_columns t)\<rparr>) tables)"
  by (simp add: dict_get_hashable)

lemma resolve_refs_raise:
  "\<not> (hashable (fr_table_id fr) \<and> hashable (fr_column_id fr))
   \<Longrightarrow> resolve_refs tm cm ((t_new_id, c_new_id, fr) # rest) tables = Inl TypeError"
  by (cases "hashable (fr_table_id fr)")
     (auto simp: dict_get_hashable dict_get_unhashable)

lemma resolve_cols:
  "tn \<notin> fst ` set X
   \<Longrightarrow> (\<And>k. m \<le> k \<Longrightarrow> k < m + length cs \<Longrightarrow> g k \<notin> fst ` set D)
   \<Longrightarrow> inj_on g {m..<m + length cs}
   \<Longrightarrow> cols_hashable cs
   \<Longrightarrow> resolve_refs tm cm (cols_pending g tn m cs @ rest)
         (X @ (tn, \<lparr>tbl_id = a, tbl_name = b, tbl_note = c,
                     tbl_columns = D @ copy_cols_of (\<lambda>fr. None) g m cs\<rparr>) # Y)
       = resolve_refs tm cm rest
         (X @ (tn, \<lparr>tbl_id = a, tbl_name = b, tbl_note = c,
                     tbl_columns = D @ copy_cols_of (remap_ref tm cm) g m cs\<rparr>) # Y)"
proof (induction cs arbitrary: D m)
  case Nil
  show ?case by simp
next
  case (Cons oc cs)
  obtain c_old_id col where oc: "oc = (c_old_id, col)" by (cases oc)
  let ?mk = "\<lambda>r. \<lparr>col_id = g m, col_name = col_name col, col_datatype = col_datatype col,
              col_is_primary = col_is_primary col, col_is_nullable = col_is_nullable col,
              col_default = col_default col, col_note = col_note col,
              col_foreign_ref = r, col_order = 0\<rparr>"
  have fresh_m: "g m \<notin> fst ` set D" by (rule Cons.prems(2)) simp_all
  have fresh': "g k \<notin> fst ` set (D @ [(g m, v)])" if "Suc m \<le> k" "k < Suc m + length cs" for k v
  proof -
    from that have r: "m \<le> k" "k < m + length (oc # cs)" "k \<noteq> m" by simp_all
    from Cons.prems(2) [OF r(1,2)] have a: "g k \<notin> fst ` set D" .
    from Cons.prems(3) r have "g k \<noteq> g m" by (auto simp: inj_on_def)
    with a show ?thesis by simp
  qed
  have inj': "inj_on g {Suc m..<Suc m + length cs}"
    by (rule inj_on_subset [OF Cons.prems(3)]) auto
  from Cons.prems(4) have hs: "cols_hashable cs"
    and hc: "\<And>fr. col_foreign_ref col = Some fr
               \<Longrightarrow> hashable (fr_table_id fr) \<and> hashable (fr_column_id fr)"
    by (simp_all add: oc cols_hashable_Cons)
  note IH = Cons.IH [OF Cons.prems(1) fresh' inj' hs, simplified]
  show ?case
  proof (cases "col_foreign_ref col")
    case None
    then show ?thesis
      using IH [of "?mk None"] by (simp add: oc)
  next
    case (Some fr)
    from hc [OF Some] have h1: "hashable (fr_table_id fr)" and h2: "hashable (fr_column_id fr)"
      by simp_all
    show ?thesis
    proof (cases "truthy (lookup tm (fr_table_id fr)) \<and> truthy (lookup cm (fr_column_id fr))")
      case False
      then have rm: "remap_ref tm cm fr = None" by (simp add: remap_ref_def)
      show ?thesis
        using IH [of "?mk None"]
        by (simp add: oc Some rm resolve_refs_skip [OF h1 h2 False] del: resolve_refs.simps)
    next
      case True
      then have rm: "remap_ref tm cm fr
          = Some \<lparr>fr_table_id = JStr (the (lookup tm (fr_table_id fr))),
                   fr_column_id = JStr (the (lookup cm (fr_column_id fr))), fr_note = fr_note fr\<rparr>"
        by (simp add: remap_ref_def)
      let ?R = "copy_cols_of (\<lambda>fr. None) g (Suc m) cs"
      let ?tb = "\<lparr>tbl_id = a, tbl_name = b, tbl_note = c,
                   tbl_columns = D @ (g m, ?mk None) # ?R\<rparr>"
      have l1: "map_of (X @ (tn, ?tb) # Y) tn = Some ?tb"
        by (rule map_of_here [OF Cons.prems(1)])
      have l2: "map_of (tbl_columns ?tb) (g m) = Some (?mk None)"
        using map_of_here [OF fresh_m, of "?mk None" ?R] by (simp del: map_of_append)
      from True have t1: "truthy (lookup tm (fr_table_id fr))"
        and t2: "truthy (lookup cm (fr_column_id fr))" by simp_all
      have "resolve_refs tm cm ((tn, g m, fr) # cols_pending g tn (Suc m) cs @ rest)
            (X @ (tn, ?tb) # Y)
          = resolve_refs tm cm (cols_pending g tn (Suc m) cs @ rest)
            (X @ (tn, \<lparr>tbl_id = a, tbl_name = b, tbl_note = c,
                   tbl_columns = D @ (g m, ?mk (remap_ref tm cm fr)) # ?R\<rparr>) # Y)"
        unfolding resolve_refs_hit [OF h1 h2 t1 t2 l1 l2]
        using Cons.prems(1) fresh_m by (simp add: update_here rm)
      then show ?thesis
        using IH [of "?mk (remap_ref tm cm fr)"]
        by (simp add: oc Some del: resolve_refs.simps)
    qed
  qed
qed

lemma resolve_tables:
  "(\<And>k. n \<le> k \<Longrightarrow> k < n + copy_cost ts \<Longrightarrow> g k \<notin> fst ` set X)
   \<Longrightarrow> inj_on g {n..<n + copy_cost ts}
   \<Longrightarrow> refs_hashable ts
   \<Longrightarrow> resolve_refs tm cm (tables_pending g n ts) (X @ copy_tables_of (\<lambda>fr. None) g n ts)
       = Inr (X @ copy_tables_of (remap_ref tm cm) g n ts)"
proof (induction ts arbitrary: X n)
  case Nil
  show ?case by simp
next
  case (Cons ot ts)
  obtain t_old_id t where ot: "ot = (t_old_id, t)" by (cases ot)
  let ?cs = "tbl_columns t"
  let ?n' = "Suc n + length ?cs"
  let ?tb = "\<lparr>tbl_id = g n, tbl_name = tbl_name t, tbl_note = tbl_note t,
               tbl_columns = copy_cols_of (remap_ref tm cm) g (Suc n) ?cs\<rparr>"
  have cost: "copy_cost (ot # ts) = Suc (length ?cs) + copy_cost ts"
    by (simp add: ot copy_cost_Cons)
  have fresh_n: "g n \<notin> fst ` set X" by (rule Cons.prems(1)) (simp_all add: cost)
  have inj1: "inj_on g {Suc n..<Suc n + length ?cs}"
    by (rule inj_on_subset [OF Cons.prems(2)]) (auto simp: cost)
  have inj2: "inj_on g {?n'..<?n' + copy_cost ts}"
    by (rule inj_on_subset [OF Cons.prems(2)]) (auto simp: cost)
  from Cons.prems(3) have hc: "cols_hashable ?cs" and hs: "refs_hashable ts"
    by (simp_all add: ot refs_hashable_Cons)
  have fresh2: "g k \<notin> fst ` set (X @ [(g n, ?tb)])" if "?n' \<le> k" "k < ?n' + copy_cost ts" for k
  proof -
    from that have r: "n \<le> k" "k < n + copy_cost (ot # ts)" "k \<noteq> n" by (simp_all add: cost)
    from Cons.prems(1) [OF r(1,2)] have a: "g k \<notin> fst ` set X" .
    from Cons.prems(2) r have "g k \<noteq> g n" by (auto simp: inj_on_def)
    with a show ?thesis by simp
  qed
  have "resolve_refs tm cm (tables_pending g n (ot # ts)) (X @ copy_tables_of (\<lambda>fr. None) g n (ot # ts))
      = resolve_refs tm cm (cols_pending g (g n) (Suc n) ?cs @ tables_pending g ?n' ts)
          (X @ (g n, \<lparr>tbl_id = g n, tbl_name = tbl_name t, tbl_note = tbl_note t,
                 tbl_columns = [] @ copy_cols_of (\<lambda>fr. None) g (Suc n) ?cs\<rparr>)
             # copy_tables_of (\<lambda>fr. None) g ?n' ts)"
    by (simp add: ot)
  also have "\<dots> = resolve_refs tm cm (tables_pending g ?n' ts)
          (X @ (g n, \<lparr>tbl_id = g n, tbl_name = tbl_name t, tbl_note = tbl_note t,
                 tbl_columns = [] @ copy_cols_of (remap_ref tm cm) g (Suc n) ?cs\<rparr>)
             # copy_tables_of (\<lambda>fr. None) g ?n' ts)"
    by (rule resolve_cols [OF fresh_n _ inj1 hc]) simp
  also have "\<dots> = resolve_refs tm cm (tables_pending g ?n' ts)
          ((X @ [(g n, ?tb)]) @ copy_tables_of (\<lambda>fr. None) g ?n' ts)"
    by simp
  also have "\<dots> = Inr ((X @ [(g n, ?tb)]) @ copy_tables_of (remap_ref tm cm) g ?n' ts)"
    by (rule Cons.IH [OF fresh2 inj2 hs])
  also have "\<dots> = Inr (X @ copy_tables_of (remap_ref tm cm) g n (ot # ts))"
    by (simp add: ot)
  finally show ?case .
qed

lemma get_or_same_hashable:
  "hashable i \<Longrightarrow> get_or_same m i = Inr (case lookup m i of None \<Rightarrow> i | Some j \<Rightarrow> JStr j)"
  by (simp add: get_or_same_def dict_get_hashable split: option.split)

lemma remap_endpoint_hashable:
  "(ty \<in> {''table'', ''column''} \<longrightarrow> hashable i)
   \<Longrightarrow> remap_endpoint tm cm ty i = Inr (remap_id tm cm ty i)"
  by (simp add: remap_endpoint_def remap_id_def get_or_same_hashable)

lemma copy_links_closed:
  "(\<And>k. n \<le> k \<Longrightarrow> k < n + length ls \<Longrightarrow> g k \<notin> fst ` set acc)
   \<Longrightarrow> inj_on g {n..<n + length ls}
   \<Longrightarrow> links_hashable ls
   \<Longrightarrow> copy_links g tm cm n acc ls = Inr (acc @ copy_links_of tm cm g n ls)"
proof (induction ls arbitrary: n acc)
  case Nil
  show ?case by simp
next
  case (Cons ol ls)
  obtain l_id l where ol: "ol = (l_id, l)" by (cases ol)
  let ?new = "\<lparr>link_id = g n, link_from_type = link_from_type l,
             link_from_id = remap_id tm cm (link_from_type l) (link_from_id l),
             link_to_type = link_to_type l,
             link_to_id = remap_id tm cm (link_to_type l) (link_to_id l),
             link_note = link_note l\<rparr>"
  have fresh_n: "g n \<notin> fst ` set acc" by (rule Cons.prems(1)) simp_all
  from Cons.prems(3)
  have hf: "link_from_type l \<in> {''table'', ''column''} \<longrightarrow> hashable (link_from_id l)"
    and ht: "link_to_type l \<in> {''table'', ''column''} \<longrightarrow> hashable (link_to_id l)"
    and hs: "links_hashable ls"
    by (simp_all add: ol links_hashable_Cons)
  have step: "copy_links g tm cm n acc ((l_id, l) # ls)
      = copy_links g tm cm (Suc n) (acc @ [(g n, ?new)]) ls"
    using fresh_n
    by (simp add: Let_def update_fresh remap_endpoint_hashable [OF hf]
        remap_endpoint_hashable [OF ht])
  have inj': "inj_on g {Suc n..<Suc n + length ls}"
    by (rule inj_on_subset [OF Cons.prems(2)]) auto
  have fresh': "g k \<notin> fst ` set (acc @ [(g n, ?new)])" if "Suc n \<le> k" "k < Suc n + length ls" for k
  proof -
    from that have r: "n \<le> k" "k < n + length (ol # ls)" "k \<noteq> n" by simp_all
    from Cons.prems(1) [OF r(1,2)] have a: "g k \<notin> fst ` set acc" .
    from Cons.prems(2) r have "g k \<noteq> g n" by (auto simp: inj_on_def)
    with a show ?thesis by simp
  qed
  from Cons.IH [OF fresh' inj' hs] show ?case
    unfolding ol step by simp
qed

lemma unique_ids_inj: "unique_ids g src \<Longrightarrow> inj_on g {0..<ids_needed src}"
  by (simp add: unique_ids_def distinct_map)

lemma duplicate_db_copy_of:
  assumes "unique_ids g src" and "lookups_hashable src"
  shows "duplicate_db g src = Inr (copy_of g src)"
proof -
  let ?ts = "db_tables src"
  let ?init = "\<lparr>ds_next = 1, ds_tables = [], ds_table_id_map = [],
                   ds_col_id_map = [], ds_pending_refs = []\<rparr>"
  let ?st = "foldl (copy_table g) ?init ?ts"
  note inj = unique_ids_inj [OF assms(1)]
  from assms(2) have hr: "refs_hashable ?ts" and hl: "links_hashable (db_links src)"
    by (simp_all add: lookups_hashable_def)
  have inj1: "inj_on g {ds_next ?init..<ds_next ?init + copy_cost ?ts}"
    by (rule inj_on_subset [OF inj]) (auto simp: ids_needed_def)
  from fold_copy_table [OF inj1]
  have n: "ds_next ?st = Suc (copy_cost ?ts)"
    and tabs: "ds_tables ?st = copy_tables_of (\<lambda>fr. None) g 1 ?ts"
    and tm: "ds_table_id_map ?st = copy_tmap g src"
    and cm: "ds_col_id_map ?st = copy_cmap g src"
    and pd: "ds_pending_refs ?st = tables_pending g 1 ?ts"
    by (simp_all add: copy_tmap_def copy_cmap_def)
  have inj2: "inj_on g {1..<1 + copy_cost ?ts}"
    by (rule inj_on_subset [OF inj]) (auto simp: ids_needed_def)
  have res: "resolve_refs (copy_tmap g src) (copy_cmap g src) (tables_pending g 1 ?ts)
      ([] @ copy_tables_of (\<lambda>fr. None) g 1 ?ts)
      = Inr ([] @ copy_tables_of (remap_ref (copy_tmap g src) (copy_cmap g src)) g 1 ?ts)"
    by (rule resolve_tables [OF _ inj2 hr]) simp
  have inj3: "inj_on g {Suc (copy_cost ?ts)..<Suc (copy_cost ?ts) + length (db_links src)}"
    by (rule inj_on_subset [OF inj]) (auto simp: ids_needed_def)
  have links: "copy_links g (copy_tmap g src) (copy_cmap g src) (Suc (copy_cost ?ts)) []
      (db_links src)
      = Inr ([] @ copy_links_of (copy_tmap g src) (copy_cmap g src) g (Suc (copy_cost ?ts))
                (db_links src))"
    by (rule copy_links_closed [OF _ inj3 hl]) simp
  show ?thesis
    unfolding duplicate_db_def Let_def n tabs tm cm pd links copy_of_def res [unfolded append_Nil]
    by simp
qed


text \<open>When a value that is looked up has no hash, the lookup raises.\<close>

lemma resolve_cols_raise:
  "tn \<notin> fst ` set X
   \<Longrightarrow> (\<And>k. m \<le> k \<Longrightarrow> k < m + length cs \<Longrightarrow> g k \<notin> fst ` set D)
   \<Longrightarrow> inj_on g {m..<m + length cs}
   \<Longrightarrow> \<not> cols_hashable cs
   \<Longrightarrow> resolve_refs tm cm (cols_pending g tn m cs @ rest)
         (X @ (tn, \<lparr>tbl_id = a, tbl_name = b, tbl_note = c,
                     tbl_columns = D @ copy_cols_of (\<lambda>fr. None) g m cs\<rparr>) # Y)
       = Inl TypeError"
proof (induction cs arbitrary: D m)
  case Nil
  then show ?case by (simp add: cols_hashable_def)
next
  case (Cons oc cs)
  obtain c_old_id col where oc: "oc = (c_old_id, col)" by (cases oc)
  let ?mk = "\<lambda>r. \<lparr>col_id = g m, col_name = col_name col, col_datatype = col_datatype col,
              col_is_primary = col_is_primary col, col_is_nullable = col_is_nullable col,
              col_default = col_default col, col_note = col_note col,
              col_foreign_ref = r, col_order = 0\<rparr>"
  have fresh_m: "g m \<notin> fst ` set D" by (rule Cons.prems(2)) simp_all
  have fresh': "g k \<notin> fst ` set (D @ [(g m, v)])" if "Suc m \<le> k" "k < Suc m + length cs" for k v
  proof -
    from that have r: "m \<le> k" "k < m + length (oc # cs)" "k \<noteq> m" by simp_all
    from Cons.prems(2) [OF r(1,2)] have a: "g k \<notin> fst ` set D" .
    from Cons.prems(3) r have "g k \<noteq> g m" by (auto simp: inj_on_def)
    with a show ?thesis by simp
  qed
  have inj': "inj_on g {Suc m..<Suc m + length cs}"
    by (rule inj_on_subset [OF Cons.prems(3)]) auto
  note IH = Cons.IH [OF Cons.prems(1) fresh' inj', simplified]
  show ?case
  proof (cases "col_foreign_ref col")
    case None
    with Cons.prems(4) have "\<not> cols_hashable cs" by (simp add: oc cols_hashable_Cons)
    from IH [OF this, of "?mk None"] None show ?thesis by (simp add: oc)
  next
    case (Some fr)
    show ?thesis
    proof (cases "hashable (fr_table_id fr) \<and> hashable (fr_column_id fr)")
      case False
      show ?thesis
        by (simp add: oc Some resolve_refs_raise [OF False] del: resolve_refs.simps)
    next
      case True
      then have h1: "hashable (fr_table_id fr)" and h2: "hashable (fr_column_id fr)" by simp_all
      with Cons.prems(4) Some have bad: "\<not> cols_hashable cs" by (simp add: oc cols_hashable_Cons)
      show ?thesis
      proof (cases "truthy (lookup tm (fr_table_id fr)) \<and> truthy (lookup cm (fr_column_id fr))")
        case False
        show ?thesis
          using IH [OF bad, of "?mk None"]
          by (simp add: oc Some resolve_refs_skip [OF h1 h2 False] del: resolve_refs.simps)
      next
        case True
        then have rm: "remap_ref tm cm fr
            = Some \<lparr>fr_table_id = JStr (the (lookup tm (fr_table_id fr))),
                     fr_column_id = JStr (the (lookup cm (fr_column_id fr))), fr_note = fr_note fr\<rparr>"
          by (simp add: remap_ref_def)
        let ?R = "copy_cols_of (\<lambda>fr. None) g (Suc m) cs"
        let ?tb = "\<lparr>tbl_id = a, tbl_name = b, tbl_note = c,
                     tbl_columns = D @ (g m, ?mk None) # ?R\<rparr>"
        have l1: "map_of (X @ (tn, ?tb) # Y) tn = Some ?tb"
          by (rule map_of_here [OF Cons.prems(1)])
        have l2: "map_of (tbl_columns ?tb) (g m) = Some (?mk None)"
          using map_of_here [OF fresh_m, of "?mk None" ?R] by (simp del: map_of_append)
        from True have t1: "truthy (lookup tm (fr_table_id fr))"
          and t2: "truthy (lookup cm (fr_column_id fr))" by simp_all
        have "resolve_refs tm cm ((tn, g m, fr) # cols_pending g tn (Suc m) cs @ rest)
              (X @ (tn, ?tb) # Y)
            = resolve_refs tm cm (cols_pending g tn (Suc m) cs @ rest)
              (X @ (tn, \<lparr>tbl_id = a, tbl_name = b, tbl_note = c,
                     tbl_columns = D @ (g m, ?mk (remap_ref tm cm fr)) # ?R\<rparr>) # Y)"
          unfolding resolve_refs_hit [OF h1 h2 t1 t2 l1 l2]
          using Cons.prems(1) fresh_m by (simp add: update_here rm)
        then show ?thesis
          using IH [OF bad, of "?mk (remap_ref tm cm fr)"]
          by (simp add: oc Some del: resolve_refs.simps)
      qed
    qed
  qed
qed

lemma resolve_tables_raise:
  "(\<And>k. n \<le> k \<Longrightarrow> k < n + copy_cost ts \<Longrightarrow> g k \<notin> fst ` set X)
   \<Longrightarrow> inj_on g {n..<n + copy_cost ts}
   \<Longrightarrow> \<not> refs_hashable ts
   \<Longrightarrow> resolve_refs tm cm (tables_pending g n ts) (X @ copy_tables_of (\<lambda>fr. None) g n ts)
       = Inl TypeError"
proof (induction ts arbitrary: X n)
  case Nil
  then show ?case by (simp add: refs_hashable_def)
next
  case (Cons ot ts)
  obtain t_old_id t where ot: "ot = (t_old_id, t)" by (cases ot)
  let ?cs = "tbl_columns t"
  let ?n' = "Suc n + length ?cs"
  let ?tb = "\<lparr>tbl_id = g n, tbl_name = tbl_name t, tbl_note = tbl_note t,
               tbl_columns = copy_cols_of (remap_ref tm cm) g (Suc n) ?cs\<rparr>"
  have cost: "copy_cost (ot # ts) = Suc (length ?cs) + copy_cost ts"
    by (simp add: ot copy_cost_Cons)
  have fresh_n: "g n \<notin> fst ` set X" by (rule Cons.prems(1)) (simp_all add: cost)
  have inj1: "inj_on g {Suc n..<Suc n + length ?cs}"
    by (rule inj_on_subset [OF Cons.prems(2)]) (auto simp: cost)
  have inj2: "inj_on g {?n'..<?n' + copy_cost ts}"
    by (rule inj_on_subset [OF Cons.prems(2)]) (auto simp: cost)
  have fresh2: "g k \<notin> fst ` set (X @ [(g n, ?tb)])" if "?n' \<le> k" "k < ?n' + copy_cost ts" for k
  proof -
    from that have r: "n \<le> k" "k < n + copy_cost (ot # ts)" "k \<noteq> n" by (simp_all add: cost)
    from Cons.prems(1) [OF r(1,2)] have a: "g k \<notin> fst ` set X" .
    from Cons.prems(2) r have "g k \<noteq> g n" by (auto simp: inj_on_def)
    with a show ?thesis by simp
  qed
  have start: "resolve_refs tm cm (tables_pending g n (ot # ts))
        (X @ copy_tables_of (\<lambda>fr. None) g n (ot # ts))
      = resolve_refs tm cm (cols_pending g (g n) (Suc n) ?cs @ tables_pending g ?n' ts)
          (X @ (g n, \<lparr>tbl_id = g n, tbl_name = tbl_name t, tbl_note = tbl_note t,
                 tbl_columns = [] @ copy_cols_of (\<lambda>fr. None) g (Suc n) ?cs\<rparr>)
             # copy_tables_of (\<lambda>fr. None) g ?n' ts)"
    by (simp add: ot)
  show ?case
  proof (cases "cols_hashable ?cs")
    case False
    have "resolve_refs tm cm (cols_pending g (g n) (Suc n) ?cs @ tables_pending g ?n' ts)
          (X @ (g n, \<lparr>tbl_id = g n, tbl_name = tbl_name t, tbl_note = tbl_note t,
                 tbl_columns = [] @ copy_cols_of (\<lambda>fr. None) g (Suc n) ?cs\<rparr>)
             # copy_tables_of (\<lambda>fr. None) g ?n' ts) = Inl TypeError"
      by (rule resolve_cols_raise [OF fresh_n _ inj1 False]) simp
    with start show ?thesis by simp
  next
    case True
    with Cons.prems(3) have bad: "\<not> refs_hashable ts" by (simp add: ot refs_hashable_Cons)
    note start
    also have "resolve_refs tm cm (cols_pending g (g n) (Suc n) ?cs @ tables_pending g ?n' ts)
          (X @ (g n, \<lparr>tbl_id = g n, tbl_name = tbl_name t, tbl_note = tbl_note t,
                 tbl_columns = [] @ copy_cols_of (\<lambda>fr. None) g (Suc n) ?cs\<rparr>)
             # copy_tables_of (\<lambda>fr. None) g ?n' ts)
        = resolve_refs tm cm (tables_pending g ?n' ts)
          (X @ (g n, \<lparr>tbl_id = g n, tbl_name = tbl_name t, tbl_note = tbl_note t,
                 tbl_columns = [] @ copy_cols_of (remap_ref tm cm) g (Suc n) ?cs\<rparr>)
             # copy_tables_of (\<lambda>fr. None) g ?n' ts)"
      by (rule resolve_cols [OF fresh_n _ inj1 True]) simp
    also have "\<dots> = resolve_refs tm cm (tables_pending g ?n' ts)
          ((X @ [(g n, ?tb)]) @ copy_tables_of (\<lambda>fr. None) g ?n' ts)"
      by simp
    also have "\<dots> = Inl TypeError"
      by (rule Cons.IH [OF fresh2 inj2 bad])
    finally show ?thesis .
  qed
qed

lemma get_or_same_unhashable: "\<not> hashable i \<Longrightarrow> get_or_same m i = Inl TypeError"
  by (simp add: get_or_same_def dict_get_unhashable)

lemma remap_endpoint_unhashable:
  "ty \<in> {''table'', ''column''} \<Longrightarrow> \<not> hashable i \<Longrightarrow> remap_endpoint tm cm ty i = Inl TypeError"
  by (auto simp: remap_endpoint_def get_or_same_unhashable)

lemma copy_links_raise:
  "(\<And>k. n \<le> k \<Longrightarrow> k < n + length ls \<Longrightarrow> g k \<notin> fst ` set acc)
   \<Longrightarrow> inj_on g {n..<n + length ls}
   \<Longrightarrow> \<not> links_hashable ls
   \<Longrightarrow> copy_links g tm cm n acc ls = Inl TypeError"
proof (induction ls arbitrary: n acc)
  case Nil
  then show ?case by (simp add: links_hashable_def)
next
  case (Cons ol ls)
  obtain l_id l where ol: "ol = (l_id, l)" by (cases ol)
  let ?new = "\<lparr>link_id = g n, link_from_type = link_from_type l,
             link_from_id = remap_id tm cm (link_from_type l) (link_from_id l),
             link_to_type = link_to_type l,
             link_to_id = remap_id tm cm (link_to_type l) (link_to_id l),
             link_note = link_note l\<rparr>"
  have fresh_n: "g n \<notin> fst ` set acc" by (rule Cons.prems(1)) simp_all
  have inj': "inj_on g {Suc n..<Suc n + length ls}"
    by (rule inj_on_subset [OF Cons.prems(2)]) auto
  have fresh': "g k \<notin> fst ` set (acc @ [(g n, ?new)])" if "Suc n \<le> k" "k < Suc n + length ls" for k
  proof -
    from that have r: "n \<le> k" "k < n + length (ol # ls)" "k \<noteq> n" by simp_all
    from Cons.prems(1) [OF r(1,2)] have a: "g k \<notin> fst ` set acc" .
    from Cons.prems(2) r have "g k \<noteq> g n" by (auto simp: inj_on_def)
    with a show ?thesis by simp
  qed
  show ?case
  proof (cases "link_from_type l \<in> {''table'', ''column''} \<longrightarrow> hashable (link_from_id l)")
    case False
    then have "link_from_type l \<in> {''table'', ''column''}" and "\<not> hashable (link_from_id l)"
      by blast+
    then have "remap_endpoint tm cm (link_from_type l) (link_from_id l) = Inl TypeError"
      by (rule remap_endpoint_unhashable)
    then show ?thesis by (simp add: ol Let_def)
  next
    case hf: True
    show ?thesis
    proof (cases "link_to_type l \<in> {''table'', ''column''} \<longrightarrow> hashable (link_to_id l)")
      case False
      then have "link_to_type l \<in> {''table'', ''column''}" and "\<not> hashable (link_to_id l)"
        by blast+
      then have "remap_endpoint tm cm (link_to_type l) (link_to_id l) = Inl TypeError"
        by (rule remap_endpoint_unhashable)
      then show ?thesis by (simp add: ol Let_def remap_endpoint_hashable [OF hf])
    next
      case ht: True
      from Cons.prems(3) hf ht have bad: "\<not> links_hashable ls"
        by (simp add: ol links_hashable_Cons)
      have step: "copy_links g tm cm n acc ((l_id, l) # ls)
          = copy_links g tm cm (Suc n) (acc @ [(g n, ?new)]) ls"
        using fresh_n
        by (simp add: Let_def update_fresh remap_endpoint_hashable [OF hf]
            remap_endpoint_hashable [OF ht])
      from Cons.IH [OF fresh' inj' bad] show ?thesis
        unfolding ol step by simp
    qed
  qed
qed

lemma duplicate_db_raise:
  assumes "unique_ids g src" and "\<not> lookups_hashable src"
  shows "duplicate_db g src = Inl TypeError"
proof -
  let ?ts = "db_tables src"
  let ?init = "\<lparr>ds_next = 1, ds_tables = [], ds_table_id_map = [],
                   ds_col_id_map = [], ds_pending_refs = []\<rparr>"
  let ?st = "foldl (copy_table g) ?init ?ts"
  note inj = unique_ids_inj [OF assms(1)]
  have inj1: "inj_on g {ds_next ?init..<ds_next ?init + copy_cost ?ts}"
    by (rule inj_on_subset [OF inj]) (auto simp: ids_needed_def)
  from fold_copy_table [OF inj1]
  have n: "ds_next ?st = Suc (copy_cost ?ts)"
    and tabs: "ds_tables ?st = copy_tables_of (\<lambda>fr. None) g 1 ?ts"
    and tm: "ds_table_id_map ?st = copy_tmap g src"
    and cm: "ds_col_id_map ?st = copy_cmap g src"
    and pd: "ds_pending_refs ?st = tables_pending g 1 ?ts"
    by (simp_all add: copy_tmap_def copy_cmap_def)
  have inj2: "inj_on g {1..<1 + copy_cost ?ts}"
    by (rule inj_on_subset [OF inj]) (auto simp: ids_needed_def)
  have inj3: "inj_on g {Suc (copy_cost ?ts)..<Suc (copy_cost ?ts) + length (db_links src)}"
    by (rule inj_on_subset [OF inj]) (auto simp: ids_needed_def)
  show ?thesis
  proof (cases "refs_hashable ?ts")
    case False
    have res: "resolve_refs (copy_tmap g src) (copy_cmap g src) (tables_pending g 1 ?ts)
        ([] @ copy_tables_of (\<lambda>fr. None) g 1 ?ts) = Inl TypeError"
      by (rule resolve_tables_raise [OF _ inj2 False]) simp
    show ?thesis
      unfolding duplicate_db_def Let_def n tabs tm cm pd res [unfolded append_Nil]
      by simp
  next
    case True
    with assms(2) have bad: "\<not> links_hashable (db_links src)"
      by (simp add: lookups_hashable_def)
    have res: "resolve_refs (copy_tmap g src) (copy_cmap g src) (tables_pending g 1 ?ts)
        ([] @ copy_tables_of (\<lambda>fr. None) g 1 ?ts)
        = Inr ([] @ copy_tables_of (remap_ref (copy_tmap g src) (copy_cmap g src)) g 1 ?ts)"
      by (rule resolve_tables [OF _ inj2 True]) simp
    have links: "copy_links g (copy_tmap g src) (copy_cmap g src) (Suc (copy_cost ?ts)) []
        (db_links src) = Inl TypeError"
      by (rule copy_links_raise [OF _ inj3 bad]) simp
    show ?thesis
      unfolding duplicate_db_def Let_def n tabs tm cm pd links res [unfolded append_Nil]
      by simp
  qed
qed


subsection \<open>Duplication: what the copy holds\<close>

lemma length_copy_cols_of: "length (copy_cols_of f g n cs) = length cs"
  by (induction f g n cs rule: copy_cols_of.induct) simp_all

lemma keys_copy_cols_of: "map fst (copy_cols_of f g n cs) = map g [n..<n + length cs]"
proof (induction f g n cs rule: copy_cols_of.induct)
  case (1 f g n)
  show ?case by simp
next
  case (2 f g n c_old_id c cs)
  have "[n..<n + length ((c_old_id, c) # cs)] = n # [Suc n..<Suc n + length cs]"
    using upt_conv_Cons [of n "n + length ((c_old_id, c) # cs)"] by simp
  with 2 show ?case by simp
qed

lemma length_copy_tables_of: "length (copy_tables_of f g n ts) = length ts"
  by (induction f g n ts rule: copy_tables_of.induct) simp_all

lemma widths_copy_tables_of:
  "map (\<lambda>(t_id, t). length (tbl_columns t)) (copy_tables_of f g n ts)
     = map (\<lambda>(t_id, t). length (tbl_columns t)) ts"
  by (induction f g n ts rule: copy_tables_of.induct) (simp_all add: length_copy_cols_of)

lemma length_copy_links_of: "length (copy_links_of tm cm g n ls) = length ls"
  by (induction tm cm g n ls rule: copy_links_of.induct) simp_all

lemma keys_copy_links_of: "map fst (copy_links_of tm cm g n ls) = map g [n..<n + length ls]"
proof (induction tm cm g n ls rule: copy_links_of.induct)
  case (1 tm cm g n)
  show ?case by simp
next
  case (2 tm cm g n l_id l ls)
  have "[n..<n + length ((l_id, l) # ls)] = n # [Suc n..<Suc n + length ls]"
    using upt_conv_Cons [of n "n + length ((l_id, l) # ls)"] by simp
  with 2 show ?case by simp
qed

lemma table_keys_copy_tables_of:
  "fst ` set (copy_tables_of f g n ts) \<subseteq> g ` {n..<n + copy_cost ts}"
proof (induction f g n ts rule: copy_tables_of.induct)
  case (1 f g n)
  show ?case by simp
next
  case (2 f g n t_old_id t ts)
  have "g ` {Suc n + length (tbl_columns t)..<Suc n + length (tbl_columns t) + copy_cost ts}
      \<subseteq> g ` {n..<n + copy_cost ((t_old_id, t) # ts)}"
    by (rule image_mono) (auto simp: copy_cost_Cons)
  moreover have "g n \<in> g ` {n..<n + copy_cost ((t_old_id, t) # ts)}"
    by (simp add: copy_cost_Cons)
  ultimately show ?case using 2 by auto
qed

lemma all_columns_Cons: "all_columns ((t_id, t) # ts) = tbl_columns t @ all_columns ts"
  by (simp add: all_columns_def)

lemma all_columns_Nil: "all_columns [] = []"
  by (simp add: all_columns_def)

lemma column_keys_copy_tables_of:
  "fst ` set (all_columns (copy_tables_of f g n ts)) \<subseteq> g ` {n..<n + copy_cost ts}"
proof (induction f g n ts rule: copy_tables_of.induct)
  case (1 f g n)
  show ?case by (simp add: all_columns_Nil)
next
  case (2 f g n t_old_id t ts)
  have a: "g ` {Suc n + length (tbl_columns t)..<Suc n + length (tbl_columns t) + copy_cost ts}
      \<subseteq> g ` {n..<n + copy_cost ((t_old_id, t) # ts)}"
    by (rule image_mono) (auto simp: copy_cost_Cons)
  have "fst ` set (copy_cols_of f g (Suc n) (tbl_columns t))
      = g ` {Suc n..<Suc n + length (tbl_columns t)}"
    using keys_copy_cols_of [of f g "Suc n" "tbl_columns t", THEN arg_cong, of set]
    by (simp del: upt_Suc)
  also have "\<dots> \<subseteq> g ` {n..<n + copy_cost ((t_old_id, t) # ts)}"
    by (rule image_mono) (auto simp: copy_cost_Cons)
  finally have b: "fst ` set (copy_cols_of f g (Suc n) (tbl_columns t))
      \<subseteq> g ` {n..<n + copy_cost ((t_old_id, t) # ts)}" .
  from 2 a have c: "fst ` set (all_columns (copy_tables_of f g (Suc n + length (tbl_columns t)) ts))
      \<subseteq> g ` {n..<n + copy_cost ((t_old_id, t) # ts)}"
    by (rule subset_trans)
  have "fst ` set (all_columns (copy_tables_of f g n ((t_old_id, t) # ts)))
      = fst ` set (copy_cols_of f g (Suc n) (tbl_columns t))
        \<union> fst ` set (all_columns (copy_tables_of f g (Suc n + length (tbl_columns t)) ts))"
    by (simp add: all_columns_Cons image_Un)
  with b c show ?case by (simp only: Un_subset_iff)
qed

lemma distinct_table_keys_copy_tables_of:
  "inj_on g {n..<n + copy_cost ts} \<Longrightarrow> distinct (map fst (copy_tables_of f g n ts))"
proof (induction f g n ts rule: copy_tables_of.induct)
  case (1 f g n)
  show ?case by simp
next
  case (2 f g n t_old_id t ts)
  let ?n' = "Suc n + length (tbl_columns t)"
  have inj': "inj_on g {?n'..<?n' + copy_cost ts}"
    by (rule inj_on_subset [OF 2(2)]) (auto simp: copy_cost_Cons)
  have "g n \<notin> g ` {?n'..<?n' + copy_cost ts}"
  proof
    assume "g n \<in> g ` {?n'..<?n' + copy_cost ts}"
    then obtain k where k: "?n' \<le> k" "k < ?n' + copy_cost ts" "g n = g k" by auto
    with 2(2) have "n = k" by (auto simp: inj_on_def copy_cost_Cons)
    with k show False by simp
  qed
  with table_keys_copy_tables_of [of f g ?n' ts]
  have "g n \<notin> fst ` set (copy_tables_of f g ?n' ts)" by blast
  with 2(1) [OF inj'] show ?case by simp
qed

lemma cols_map_other:
  "k \<notin> fst ` set cs \<Longrightarrow> map_of (cols_map g n cs m) k = map_of m k"
  by (induction g n cs m rule: cols_map.induct) (auto simp: update_conv')

lemma cols_map_key:
  "k \<in> fst ` set cs \<Longrightarrow> \<exists>v \<in> fst ` set (copy_cols_of f g n cs). map_of (cols_map g n cs m) k = Some v"
proof (induction g n cs m rule: cols_map.induct)
  case (1 g n m)
  then show ?case by simp
next
  case (2 g n c_old_id c cs m)
  show ?case
  proof (cases "k \<in> fst ` set cs")
    case True
    from 2(1) [OF True] show ?thesis by auto
  next
    case False
    with 2(2) have "k = c_old_id" by auto
    with False have "map_of (cols_map g (Suc n) cs (AList.update c_old_id (g n) m)) k = Some (g n)"
      by (simp add: cols_map_other update_conv')
    then show ?thesis by simp
  qed
qed

lemma tables_tmap_other:
  "k \<notin> fst ` set ts \<Longrightarrow> map_of (tables_tmap g n ts m) k = map_of m k"
  by (induction g n ts m rule: tables_tmap.induct) (auto simp: update_conv')

lemma tables_tmap_key:
  "k \<in> fst ` set ts
   \<Longrightarrow> \<exists>v \<in> fst ` set (copy_tables_of f g n ts). map_of (tables_tmap g n ts m) k = Some v"
proof (induction g n ts m rule: tables_tmap.induct)
  case (1 g n m)
  then show ?case by simp
next
  case (2 g n t_old_id t ts m)
  show ?case
  proof (cases "k \<in> fst ` set ts")
    case True
    from 2(1) [OF True] show ?thesis by auto
  next
    case False
    with 2(2) have "k = t_old_id" by auto
    with False have "map_of (tables_tmap g (Suc n + length (tbl_columns t)) ts
        (AList.update t_old_id (g n) m)) k = Some (g n)"
      by (simp add: tables_tmap_other update_conv')
    then show ?thesis by simp
  qed
qed

lemma tables_cmap_other:
  "k \<notin> fst ` set (all_columns ts) \<Longrightarrow> map_of (tables_cmap g n ts m) k = map_of m k"
proof (induction g n ts m rule: tables_cmap.induct)
  case (1 g n m)
  show ?case by simp
next
  case (2 g n t_old_id t ts m)
  from 2(2) have a: "k \<notin> fst ` set (all_columns ts)" and b: "k \<notin> fst ` set (tbl_columns t)"
    by (auto simp: all_columns_Cons)
  from 2(1) [OF a] cols_map_other [OF b] show ?case by simp
qed

lemma tables_cmap_key:
  "k \<in> fst ` set (all_columns ts)
   \<Longrightarrow> \<exists>v \<in> fst ` set (all_columns (copy_tables_of f g n ts)). map_of (tables_cmap g n ts m) k = Some v"
proof (induction g n ts m rule: tables_cmap.induct)
  case (1 g n m)
  then show ?case by (simp add: all_columns_Nil)
next
  case (2 g n t_old_id t ts m)
  show ?case
  proof (cases "k \<in> fst ` set (all_columns ts)")
    case True
    from 2(1) [OF True] show ?thesis by (auto simp: all_columns_Cons)
  next
    case False
    with 2(2) have k: "k \<in> fst ` set (tbl_columns t)" by (auto simp: all_columns_Cons)
    from cols_map_key [OF k, of f g "Suc n" m]
    obtain v where v: "v \<in> fst ` set (copy_cols_of f g (Suc n) (tbl_columns t))"
      and "map_of (cols_map g (Suc n) (tbl_columns t) m) k = Some v"
      by auto
    with False have "map_of (tables_cmap g (Suc n + length (tbl_columns t)) ts
        (cols_map g (Suc n) (tbl_columns t) m)) k = Some v"
      by (simp add: tables_cmap_other)
    with v show ?thesis by (auto simp: all_columns_Cons)
  qed
qed

lemma db_tables_copy_of:
  "db_tables (copy_of g src)
     = copy_tables_of (remap_ref (copy_tmap g src) (copy_cmap g src)) g 1 (db_tables src)"
  by (simp add: copy_of_def)

lemma db_links_copy_of:
  "db_links (copy_of g src)
     = copy_links_of (copy_tmap g src) (copy_cmap g src) g (Suc (copy_cost (db_tables src)))
         (db_links src)"
  by (simp add: copy_of_def)

lemma copy_tmap_key:
  "k \<in> fst ` set (db_tables src)
   \<Longrightarrow> \<exists>v \<in> fst ` set (db_tables (copy_of g src)). map_of (copy_tmap g src) k = Some v"
  unfolding db_tables_copy_of copy_tmap_def by (rule tables_tmap_key)

lemma copy_cmap_key:
  "k \<in> fst ` set (all_columns (db_tables src))
   \<Longrightarrow> \<exists>v \<in> fst ` set (all_columns (db_tables (copy_of g src))). map_of (copy_cmap g src) k = Some v"
  unfolding db_tables_copy_of copy_cmap_def by (rule tables_cmap_key)

lemma copy_tmap_Some:
  assumes "map_of (copy_tmap g src) k = Some v"
  shows "k \<in> fst ` set (db_tables src)" and "v \<in> fst ` set (db_tables (copy_of g src))"
proof -
  show k: "k \<in> fst ` set (db_tables src)"
  proof (rule ccontr)
    assume "k \<notin> fst ` set (db_tables src)"
    then have "map_of (copy_tmap g src) k = map_of [] k"
      unfolding copy_tmap_def by (rule tables_tmap_other)
    with assms show False by simp
  qed
  from copy_tmap_key [OF k, of g] assms
  show "v \<in> fst ` set (db_tables (copy_of g src))" by auto
qed

lemma copy_cmap_Some:
  assumes "map_of (copy_cmap g src) k = Some v"
  shows "k \<in> fst ` set (all_columns (db_tables src))"
    and "v \<in> fst ` set (all_columns (db_tables (copy_of g src)))"
proof -
  show k: "k \<in> fst ` set (all_columns (db_tables src))"
  proof (rule ccontr)
    assume "k \<notin> fst ` set (all_columns (db_tables src))"
    then have "map_of (copy_cmap g src) k = map_of [] k"
      unfolding copy_cmap_def by (rule tables_cmap_other)
    with assms show False by simp
  qed
  from copy_cmap_key [OF k, of g] assms
  show "v \<in> fst ` set (all_columns (db_tables (copy_of g src)))" by auto
qed

lemma refs_of_copy_cols_of:
  "(c_id, c) \<in> set (copy_cols_of f g n cs) \<Longrightarrow> col_foreign_ref c = Some r
   \<Longrightarrow> \<exists>fr. f fr = Some r"
  by (induction f g n cs rule: copy_cols_of.induct) (auto split: option.splits)

lemma refs_of_copy_tables_of:
  "(c_id, c) \<in> set (all_columns (copy_tables_of f g n ts)) \<Longrightarrow> col_foreign_ref c = Some r
   \<Longrightarrow> \<exists>fr. f fr = Some r"
  by (induction f g n ts rule: copy_tables_of.induct)
     (auto simp: all_columns_Cons all_columns_Nil dest: refs_of_copy_cols_of)

lemma links_of_copy_links_of:
  "(l_id, l') \<in> set (copy_links_of tm cm g n ls)
   \<Longrightarrow> \<exists>(k, l) \<in> set ls.
         link_from_type l' = link_from_type l
         \<and> link_from_id l' = remap_id tm cm (link_from_type l) (link_from_id l)
         \<and> link_to_type l' = link_to_type l
         \<and> link_to_id l' = remap_id tm cm (link_to_type l) (link_to_id l)"
  by (induction tm cm g n ls rule: copy_links_of.induct) auto

lemma lookup_string: "lookup m (JStr k) = map_of m k"
  by (simp add: lookup_def)

lemma lookup_Some: "lookup m i = Some v \<Longrightarrow> \<exists>k. i = JStr k \<and> map_of m k = Some v"
  by (cases i) (simp_all add: lookup_def)

lemma endpoint_in_copy:
  assumes "endpoint_in src ty i"
  shows "endpoint_in (copy_of g src) ty (remap_id (copy_tmap g src) (copy_cmap g src) ty i)"
proof -
  from assms consider k where "ty = ''table''" "i = JStr k" "k \<in> fst ` set (db_tables src)"
    | k where "ty = ''column''" "i = JStr k" "k \<in> fst ` set (all_columns (db_tables src))"
    by (auto simp: endpoint_in_def table_keys_def column_keys_def)
  then show ?thesis
  proof cases
    case 1
    from copy_tmap_key [OF 1(3), of g]
    obtain v where "v \<in> fst ` set (db_tables (copy_of g src))"
      and "map_of (copy_tmap g src) k = Some v" by blast
    then show ?thesis
      by (simp add: endpoint_in_def table_keys_def remap_id_def 1(1,2) lookup_string)
  next
    case 2
    from copy_cmap_key [OF 2(3), of g]
    obtain v where "v \<in> fst ` set (all_columns (db_tables (copy_of g src)))"
      and "map_of (copy_cmap g src) k = Some v" by blast
    then show ?thesis
      by (simp add: endpoint_in_def column_keys_def remap_id_def 2(1,2) lookup_string)
  qed
qed

lemma remap_ref_Some:
  assumes "remap_ref tm cm fr = Some r"
  shows "\<exists>kt kc vt vc. fr_table_id fr = JStr kt \<and> fr_column_id fr = JStr kc
           \<and> map_of tm kt = Some vt \<and> map_of cm kc = Some vc
           \<and> fr_table_id r = JStr vt \<and> fr_column_id r = JStr vc"
proof -
  from assms obtain vt vc where t: "lookup tm (fr_table_id fr) = Some vt"
    and c: "lookup cm (fr_column_id fr) = Some vc"
    and r: "r = \<lparr>fr_table_id = JStr vt, fr_column_id = JStr vc, fr_note = fr_note fr\<rparr>"
    by (auto simp: remap_ref_def truthy_def split: if_splits option.splits)
  from lookup_Some [OF t] lookup_Some [OF c] r show ?thesis by auto
qed

lemma foreign_refs_resolve_copy: "foreign_refs_resolve (copy_of g src)"
  unfolding foreign_refs_resolve_def
proof (intro ballI allI impI, clarify)
  fix c_id c r
  assume "(c_id, c) \<in> set (all_columns (db_tables (copy_of g src)))" "col_foreign_ref c = Some r"
  then obtain fr where "remap_ref (copy_tmap g src) (copy_cmap g src) fr = Some r"
    using refs_of_copy_tables_of by (fastforce simp: copy_of_def)
  from remap_ref_Some [OF this]
  obtain kt kc vt vc where t: "map_of (copy_tmap g src) kt = Some vt"
    and c: "map_of (copy_cmap g src) kc = Some vc"
    and r: "fr_table_id r = JStr vt" "fr_column_id r = JStr vc"
    by (elim exE conjE)
  from copy_tmap_Some(2) [OF t] copy_cmap_Some(2) [OF c]
  show "fr_table_id r \<in> table_keys (copy_of g src) \<and> fr_column_id r \<in> column_keys (copy_of g src)"
    by (simp add: r table_keys_def column_keys_def)
qed

lemma links_resolve_copy:
  assumes "links_resolve src"
  shows "links_resolve (copy_of g src)"
  unfolding links_resolve_def
proof (intro ballI, clarify)
  fix l_id l'
  assume "(l_id, l') \<in> set (db_links (copy_of g src))"
  then obtain k l where kl: "(k, l) \<in> set (db_links src)"
    and eq: "link_from_type l' = link_from_type l"
      "link_from_id l' = remap_id (copy_tmap g src) (copy_cmap g src) (link_from_type l) (link_from_id l)"
      "link_to_type l' = link_to_type l"
      "link_to_id l' = remap_id (copy_tmap g src) (copy_cmap g src) (link_to_type l) (link_to_id l)"
    using links_of_copy_links_of [of l_id l' "copy_tmap g src" "copy_cmap g src" g
        "Suc (copy_cost (db_tables src))" "db_links src"]
    by (auto simp: copy_of_def)
  from assms kl have "endpoint_in src (link_from_type l) (link_from_id l)"
    and "endpoint_in src (link_to_type l) (link_to_id l)"
    by (auto simp: links_resolve_def)
  then show "endpoint_in (copy_of g src) (link_from_type l') (link_from_id l')
     \<and> endpoint_in (copy_of g src) (link_to_type l') (link_to_id l')"
    unfolding eq by (auto intro: endpoint_in_copy)
qed

lemma links_resolve_hashable:
  assumes "links_resolve db"
  shows "links_hashable (db_links db)"
  unfolding links_hashable_def
proof (intro ballI, clarify)
  fix l_id l
  assume "(l_id, l) \<in> set (db_links db)"
  with assms have "endpoint_in db (link_from_type l) (link_from_id l)"
    and "endpoint_in db (link_to_type l) (link_to_id l)"
    by (auto simp: links_resolve_def)
  then show "(link_from_type l \<in> {''table'', ''column''} \<longrightarrow> hashable (link_from_id l))
      \<and> (link_to_type l \<in> {''table'', ''column''} \<longrightarrow> hashable (link_to_id l))"
    by (auto simp: endpoint_in_def table_keys_def column_keys_def hashable_def)
qed

lemma all_columns_mem:
  "(t_id, t) \<in> set ts \<Longrightarrow> (c_id, c) \<in> set (tbl_columns t) \<Longrightarrow> (c_id, c) \<in> set (all_columns ts)"
  by (auto simp: all_columns_def)

lemma foreign_refs_resolve_hashable:
  assumes "foreign_refs_resolve db"
  shows "refs_hashable (db_tables db)"
  unfolding refs_hashable_def cols_hashable_def
proof (intro ballI allI impI, clarify)
  fix t_id t c_id c fr
  assume "(t_id, t) \<in> set (db_tables db)" "(c_id, c) \<in> set (tbl_columns t)"
  then have "(c_id, c) \<in> set (all_columns (db_tables db))" by (rule all_columns_mem)
  moreover assume "col_foreign_ref c = Some fr"
  ultimately have "fr_table_id fr \<in> table_keys db" and "fr_column_id fr \<in> column_keys db"
    using assms unfolding foreign_refs_resolve_def by blast+
  then show "hashable (fr_table_id fr) \<and> hashable (fr_column_id fr)"
    by (auto simp: table_keys_def column_keys_def hashable_def)
qed

lemma copy_entities_generated:
  "fst ` set (db_tables (copy_of g src)) \<subseteq> g ` {0..<ids_needed src}"
  "fst ` set (all_columns (db_tables (copy_of g src))) \<subseteq> g ` {0..<ids_needed src}"
proof -
  have sub: "g ` {1..<1 + copy_cost (db_tables src)} \<subseteq> g ` {0..<ids_needed src}"
    by (rule image_mono) (auto simp: ids_needed_def)
  show "fst ` set (db_tables (copy_of g src)) \<subseteq> g ` {0..<ids_needed src}"
    using table_keys_copy_tables_of [of _ g 1 "db_tables src"] sub
    by (simp add: copy_of_def) blast
  show "fst ` set (all_columns (db_tables (copy_of g src))) \<subseteq> g ` {0..<ids_needed src}"
    using column_keys_copy_tables_of [of _ g 1 "db_tables src"] sub
    by (simp add: copy_of_def) blast
qed

lemma db_pointers_cases:
  assumes "x \<in> set (db_pointers db)"
  shows "(\<exists>c_id c fr. (c_id, c) \<in> set (all_columns (db_tables db)) \<and> col_foreign_ref c = Some fr
            \<and> (x = fr_table_id fr \<or> x = fr_column_id fr))
       \<or> (\<exists>l_id l. (l_id, l) \<in> set (db_links db) \<and> (x = link_from_id l \<or> x = link_to_id l))"
proof -
  from assms have "(\<exists>p \<in> set (all_columns (db_tables db)).
        x \<in> set (case col_foreign_ref (snd p) of None \<Rightarrow> []
                   | Some fr \<Rightarrow> [fr_table_id fr, fr_column_id fr]))
      \<or> (\<exists>q \<in> set (db_links db). x \<in> set [link_from_id (snd q), link_to_id (snd q)])"
    by (simp add: db_pointers_def case_prod_beta)
  then show ?thesis
  proof
    assume "\<exists>p \<in> set (all_columns (db_tables db)).
        x \<in> set (case col_foreign_ref (snd p) of None \<Rightarrow> []
                   | Some fr \<Rightarrow> [fr_table_id fr, fr_column_id fr])"
    then obtain p where p: "p \<in> set (all_columns (db_tables db))"
      and x: "x \<in> set (case col_foreign_ref (snd p) of None \<Rightarrow> []
                   | Some fr \<Rightarrow> [fr_table_id fr, fr_column_id fr])"
      by blast
    from x obtain fr where fr: "col_foreign_ref (snd p) = Some fr"
      and xx: "x = fr_table_id fr \<or> x = fr_column_id fr"
      by (cases "col_foreign_ref (snd p)") auto
    from p have "(fst p, snd p) \<in> set (all_columns (db_tables db))" by simp
    with fr xx show ?thesis by blast
  next
    assume "\<exists>q \<in> set (db_links db). x \<in> set [link_from_id (snd q), link_to_id (snd q)]"
    then obtain q where q: "q \<in> set (db_links db)"
      and xx: "x = link_from_id (snd q) \<or> x = link_to_id (snd q)"
      by auto
    from q have "(fst q, snd q) \<in> set (db_links db)" by simp
    with xx show ?thesis by blast
  qed
qed

lemma pointers_resolve:
  assumes "foreign_refs_resolve db" and "links_resolve db"
  shows "set (db_pointers db) \<subseteq> table_keys db \<union> column_keys db"
proof
  fix x assume "x \<in> set (db_pointers db)"
  from db_pointers_cases [OF this]
  consider c_id c fr where "(c_id, c) \<in> set (all_columns (db_tables db))"
      "col_foreign_ref c = Some fr" "x = fr_table_id fr \<or> x = fr_column_id fr"
    | l_id l where "(l_id, l) \<in> set (db_links db)" "x = link_from_id l \<or> x = link_to_id l"
    by blast
  then show "x \<in> table_keys db \<union> column_keys db"
  proof cases
    case 1
    with assms(1) have "fr_table_id fr \<in> table_keys db"
      and "fr_column_id fr \<in> column_keys db"
      unfolding foreign_refs_resolve_def by blast+
    with 1(3) show ?thesis by blast
  next
    case 2
    with assms(2) have "endpoint_in db (link_from_type l) (link_from_id l)"
      and "endpoint_in db (link_to_type l) (link_to_id l)"
      unfolding links_resolve_def by blast+
    with 2(2) show ?thesis unfolding endpoint_in_def by blast
  qed
qed


subsection \<open>Duplication: the claims\<close>

lemma distinct_column_keys_copy_tables_of:
  "inj_on g {n..<n + copy_cost ts} \<Longrightarrow> (t_id, t) \<in> set (copy_tables_of f g n ts)
   \<Longrightarrow> distinct (map fst (tbl_columns t))"
proof (induction f g n ts rule: copy_tables_of.induct)
  case (1 f g n)
  then show ?case by simp
next
  case (2 f g n t_old_id t0 ts)
  let ?n' = "Suc n + length (tbl_columns t0)"
  from 2(3) consider "t = \<lparr>tbl_id = g n, tbl_name = tbl_name t0, tbl_note = tbl_note t0,
      tbl_columns = copy_cols_of f g (Suc n) (tbl_columns t0)\<rparr>"
    | "(t_id, t) \<in> set (copy_tables_of f g ?n' ts)" by auto
  then show ?case
  proof cases
    case 1
    have "inj_on g (set [Suc n..<Suc n + length (tbl_columns t0)])"
      by (rule inj_on_subset [OF 2(2)]) (auto simp: copy_cost_Cons)
    then have "distinct (map g [Suc n..<Suc n + length (tbl_columns t0)])"
      by (simp add: distinct_map del: upt_Suc)
    with 1 show ?thesis by (simp add: keys_copy_cols_of del: upt_Suc)
  next
    case 2
    have "inj_on g {?n'..<?n' + copy_cost ts}"
      by (rule inj_on_subset [OF \<open>inj_on g {n..<n + copy_cost ((t_old_id, t0) # ts)}\<close>])
         (auto simp: copy_cost_Cons)
    from "2.IH" [OF this 2] show ?thesis .
  qed
qed

lemma distinct_link_keys_copy_links_of:
  assumes "inj_on g {n..<n + length ls}"
  shows "distinct (map fst (copy_links_of tm cm g n ls))"
proof -
  from assms have "inj_on g (set [n..<n + length ls])" by simp
  then have "distinct (map g [n..<n + length ls])"
    by (simp add: distinct_map del: upt_Suc)
  then show ?thesis by (simp add: keys_copy_links_of del: upt_Suc)
qed

text \<open>
  C1.  When the identifiers drawn are pairwise different and none of them is an
  identifier of \<open>src\<close>, every link endpoint of \<open>src\<close> names a table or column of \<open>src\<close> and the
  identifiers in the foreign references of \<open>src\<close> have a hash, duplication succeeds and the
  copy has as many tables as \<open>src\<close>, table by table as many columns, and as many links
  (each dict with pairwise different keys); every foreign reference and every link
  endpoint of the copy names a table or column of the copy, and none names an identifier
  of \<open>src\<close>.  The foreign references of \<open>src\<close> need not name anything in \<open>src\<close>, since one that
  names nothing is not copied; when they do, as the claim assumes, their identifiers are
  strings and have a hash (\<open>foreign_refs_resolve_hashable\<close>).
\<close>

theorem duplicate_isomorphic:
  assumes "unique_ids g src" and "new_ids g src" and "links_resolve src"
    and "refs_hashable (db_tables src)"
  shows "\<exists>new. duplicate_db g src = Inr new
     \<and> length (db_tables new) = length (db_tables src)
     \<and> map (\<lambda>(t_id, t). length (tbl_columns t)) (db_tables new)
         = map (\<lambda>(t_id, t). length (tbl_columns t)) (db_tables src)
     \<and> length (db_links new) = length (db_links src)
     \<and> distinct (map fst (db_tables new))
     \<and> (\<forall>(t_id, t) \<in> set (db_tables new). distinct (map fst (tbl_columns t)))
     \<and> distinct (map fst (db_links new))
     \<and> foreign_refs_resolve new \<and> links_resolve new
     \<and> set (db_pointers new) \<inter> JStr ` set (db_ids src) = {}"
proof -
  let ?new = "copy_of g src"
  note inj = unique_ids_inj [OF assms(1)]
  have inj_t: "inj_on g {1..<1 + copy_cost (db_tables src)}"
    by (rule inj_on_subset [OF inj]) (auto simp: ids_needed_def)
  have inj_l: "inj_on g {Suc (copy_cost (db_tables src))..<Suc (copy_cost (db_tables src))
      + length (db_links src)}"
    by (rule inj_on_subset [OF inj]) (auto simp: ids_needed_def)
  have hs: "lookups_hashable src"
    using assms(4) links_resolve_hashable [OF assms(3)] by (simp add: lookups_hashable_def)
  have a: "duplicate_db g src = Inr ?new"
    by (rule duplicate_db_copy_of [OF assms(1) hs])
  have b: "length (db_tables ?new) = length (db_tables src)"
    by (simp only: db_tables_copy_of length_copy_tables_of)
  have c: "map (\<lambda>(t_id, t). length (tbl_columns t)) (db_tables ?new)
         = map (\<lambda>(t_id, t). length (tbl_columns t)) (db_tables src)"
    by (simp only: db_tables_copy_of widths_copy_tables_of)
  have d: "length (db_links ?new) = length (db_links src)"
    by (simp only: db_links_copy_of length_copy_links_of)
  have e: "distinct (map fst (db_tables ?new))"
    unfolding db_tables_copy_of by (rule distinct_table_keys_copy_tables_of [OF inj_t])
  have f: "\<forall>(t_id, t) \<in> set (db_tables ?new). distinct (map fst (tbl_columns t))"
    unfolding db_tables_copy_of
    using distinct_column_keys_copy_tables_of [OF inj_t] by blast
  have h: "distinct (map fst (db_links ?new))"
    unfolding db_links_copy_of by (rule distinct_link_keys_copy_links_of [OF inj_l])
  have i: "foreign_refs_resolve ?new" by (rule foreign_refs_resolve_copy)
  have j: "links_resolve ?new" by (rule links_resolve_copy [OF assms(3)])
  have k: "set (db_pointers ?new) \<inter> JStr ` set (db_ids src) = {}"
  proof -
    let ?G = "g ` {0..<ids_needed src}"
    have sub: "set (db_pointers ?new) \<subseteq> table_keys ?new \<union> column_keys ?new"
      by (rule pointers_resolve [OF i j])
    have tk: "table_keys ?new \<subseteq> JStr ` ?G"
      unfolding table_keys_def by (rule image_mono) (rule copy_entities_generated)
    have ck: "column_keys ?new \<subseteq> JStr ` ?G"
      unfolding column_keys_def by (rule image_mono) (rule copy_entities_generated)
    have "?G \<inter> set (db_ids src) = {}"
      using assms(2) by (auto simp: new_ids_def)
    then have "JStr ` ?G \<inter> JStr ` set (db_ids src) = {}"
      by (simp add: image_Int [symmetric] inj_on_def)
    with sub tk ck show ?thesis by blast
  qed
  from a b c d e f h i j k show ?thesis by blast
qed




text \<open>
  The database of the counterexample is one that the store reaches: \<^verbatim>\<open>create_column\<close>
  accepts a \<^verbatim>\<open>foreign_ref\<close> whose \<^verbatim>\<open>table_id\<close> is a non-empty list, since the value is truthy,
  and stores it.
\<close>

lemma create_column_stores_list_id:
  "create_column (Some ''p'') ''c5'' [(''d1'', ex_db_clean)] ''d1'' ''t1'' ex_garbage_req
     = Inr ([(''d1'', ex_db_garbage)], ex_c5)"
  by (simp add: create_column_def ex_db_clean_def ex_db_garbage_def ex_garbage_req_def ex_c5_def
      ex_t1_def ex_c1_def no_pin_def or_else_def strip_def is_space_def foreign_ref_of_req_def
      field_truthy_def json_truthy_def next_order_def py_max_def Let_def)



lemma duplicate_db_id: "duplicate_db g src = Inr new \<Longrightarrow> db_id new = g 0"
  by (auto simp: duplicate_db_def Let_def split: sum.splits)

text \<open>
  C10.  A duplication that answers stores the state it was given with one entry added at
  the end, the copy under the new key, when that key is the key of no stored database:
  the source and every other database are stored as they were.  When the identifiers
  drawn are pairwise different, it answers if every value it looks up has a hash, and
  fails with \<^verbatim>\<open>TypeError\<close> otherwise; a request that fails stores nothing.
\<close>

theorem duplicate_database_frame:
  assumes "\<not> no_pin pin" and "map_of dbs db_id' = Some src" and "g 0 \<notin> fst ` set dbs"
  shows "(unique_ids g src \<longrightarrow> lookups_hashable src \<longrightarrow>
            (\<exists>new. duplicate_database g pin dbs db_id' = Inr (dbs @ [(g 0, new)], new)))
       \<and> (\<forall>dbs' new. duplicate_database g pin dbs db_id' = Inr (dbs', new) \<longrightarrow>
            dbs' = dbs @ [(g 0, new)]
            \<and> db_id new = g 0
            \<and> map_of dbs' db_id' = Some src
            \<and> (\<forall>k v. map_of dbs k = Some v \<longrightarrow> map_of dbs' k = Some v)
            \<and> map_of dbs' (g 0) = Some new)
       \<and> (unique_ids g src \<longrightarrow> \<not> lookups_hashable src \<longrightarrow>
            duplicate_database g pin dbs db_id' = Inl TypeError)"
proof (intro conjI allI impI)
  assume u: "unique_ids g src" and h: "lookups_hashable src"
  let ?new = "copy_of g src"
  have id: "db_id ?new = g 0" by (simp add: copy_of_def)
  have "duplicate_database g pin dbs db_id' = Inr (AList.update (g 0) ?new dbs, ?new)"
    using assms(1,2) by (simp add: duplicate_database_def duplicate_db_copy_of [OF u h] id)
  then have "duplicate_database g pin dbs db_id' = Inr (dbs @ [(g 0, ?new)], ?new)"
    by (simp add: update_fresh [OF assms(3)])
  then show "\<exists>new. duplicate_database g pin dbs db_id' = Inr (dbs @ [(g 0, new)], new)"
    by (rule exI)
next
  fix dbs' new
  assume r: "duplicate_database g pin dbs db_id' = Inr (dbs', new)"
  with assms(1,2) have d: "duplicate_db g src = Inr new"
    and s: "dbs' = AList.update (db_id new) new dbs"
    by (auto simp: duplicate_database_def split: sum.splits)
  from d show id: "db_id new = g 0" by (rule duplicate_db_id)
  from s show app: "dbs' = dbs @ [(g 0, new)]"
    by (simp add: id update_fresh [OF assms(3)])
  have old: "map_of dbs' k = Some v" if "map_of dbs k = Some v" for k v
    using that by (simp add: app map_add_Some_iff)
  from assms(2) show "map_of dbs' db_id' = Some src" by (rule old)
  show "map_of dbs' (g 0) = Some new"
    using assms(3) by (simp add: app map_add_Some_iff map_of_eq_None_iff)
  fix k v
  assume "map_of dbs k = Some v"
  then show "map_of dbs' k = Some v" by (rule old)
next
  assume "unique_ids g src" and "\<not> lookups_hashable src"
  then have "duplicate_db g src = Inl TypeError" by (rule duplicate_db_raise)
  with assms(1,2) show "duplicate_database g pin dbs db_id' = Inl TypeError"
    by (simp add: duplicate_database_def)
qed

theorem duplicate_isomorphic_witness:
  "unique_ids ex_gen ex_db \<and> new_ids ex_gen ex_db \<and> links_resolve ex_db
   \<and> refs_hashable (db_tables ex_db)
   \<and> (\<exists>new. duplicate_db ex_gen ex_db = Inr new
     \<and> length (db_tables new) = length (db_tables ex_db)
     \<and> map (\<lambda>(t_id, t). length (tbl_columns t)) (db_tables new)
         = map (\<lambda>(t_id, t). length (tbl_columns t)) (db_tables ex_db)
     \<and> length (db_links new) = length (db_links ex_db)
     \<and> distinct (map fst (db_tables new))
     \<and> (\<forall>(t_id, t) \<in> set (db_tables new). distinct (map fst (tbl_columns t)))
     \<and> distinct (map fst (db_links new))
     \<and> foreign_refs_resolve new \<and> links_resolve new
     \<and> set (db_pointers new) \<inter> JStr ` set (db_ids ex_db) = {})"
proof -
  have u: "unique_ids ex_gen ex_db"
    by (simp add: unique_ids_def ids_needed_def copy_cost_def ex_defs ex_gen_def upt_rec)
  have n: "new_ids ex_gen ex_db"
    by (simp add: new_ids_def ids_needed_def copy_cost_def ex_defs ex_gen_def upt_rec db_ids_def
        all_columns_def)
  have l: "links_resolve ex_db"
    by (simp add: links_resolve_def endpoint_in_def table_keys_def column_keys_def
        all_columns_def ex_defs)
  have h: "refs_hashable (db_tables ex_db)"
    by (simp add: refs_hashable_def cols_hashable_def hashable_def ex_defs)
  show ?thesis
    by (intro conjI u n l h duplicate_isomorphic [OF u n l h])
qed


theorem duplicate_database_frame_witness:
  "\<not> no_pin (Some ''p'') \<and> map_of ex_dbs ''d1'' = Some ex_db
   \<and> ex_gen 0 \<notin> fst ` set ex_dbs
   \<and> unique_ids ex_gen ex_db \<and> lookups_hashable ex_db
   \<and> (\<exists>new. duplicate_database ex_gen (Some ''p'') ex_dbs ''d1''
              = Inr (ex_dbs @ [(ex_gen 0, new)], new))
   \<and> duplicate_database ex_gen (Some ''p'') ex_dbs ''d1''
       = Inr (ex_dbs @ [(ex_gen 0, copy_of ex_gen ex_db)], copy_of ex_gen ex_db)
   \<and> db_id (copy_of ex_gen ex_db) = ex_gen 0
   \<and> map_of (ex_dbs @ [(ex_gen 0, copy_of ex_gen ex_db)]) ''d1'' = Some ex_db
   \<and> map_of (ex_dbs @ [(ex_gen 0, copy_of ex_gen ex_db)]) (ex_gen 0) = Some (copy_of ex_gen ex_db)"
proof -
  have p: "\<not> no_pin (Some ''p'')" by (simp add: no_pin_def)
  have d: "map_of ex_dbs ''d1'' = Some ex_db" by (simp add: ex_dbs_def)
  have u: "unique_ids ex_gen ex_db"
    by (simp add: unique_ids_def ids_needed_def copy_cost_def ex_defs ex_gen_def upt_rec)
  have h: "lookups_hashable ex_db"
    by (simp add: lookups_hashable_def refs_hashable_def cols_hashable_def links_hashable_def
        hashable_def ex_defs)
  have f: "ex_gen 0 \<notin> fst ` set ex_dbs" by (simp add: ex_dbs_def ex_gen_def)
  note A = duplicate_database_frame [where g = ex_gen, OF p d f, THEN conjunct1, rule_format,
      OF u h]
  have r: "duplicate_database ex_gen (Some ''p'') ex_dbs ''d1''
       = Inr (ex_dbs @ [(ex_gen 0, copy_of ex_gen ex_db)], copy_of ex_gen ex_db)"
    using p d f by (simp add: duplicate_database_def duplicate_db_copy_of [OF u h] copy_of_def
        update_fresh)
  note B = duplicate_database_frame [where g = ex_gen, OF p d f, THEN conjunct2, THEN conjunct1,
      rule_format, OF r]
  show ?thesis
    by (intro conjI p d f u h A r B [THEN conjunct2, THEN conjunct1]
        B [THEN conjunct2, THEN conjunct2, THEN conjunct1]
        B [THEN conjunct2, THEN conjunct2, THEN conjunct2, THEN conjunct2])
qed


end
